theory Spec2Isabelle
  imports Main "HOL-Library.Word"
begin

section \<open>JavaScript strings\<close>

text \<open>
  A JavaScript string is a sequence of 16-bit code units. The regular expressions of
  \<^verbatim>\<open>src/admin/search.ts\<close> carry no \<^verbatim>\<open>u\<close> flag, so they work on code units too.
  \<open>js\<close> embeds an ASCII literal.
\<close>

type_synonym cu = "16 word"
type_synonym jsstring = "cu list"

definition js :: "string \<Rightarrow> jsstring" where
  "js s = map (\<lambda>c. of_nat (of_char c)) s"

text \<open>\<^verbatim>\<open>s.startsWith(p)\<close>, \<^verbatim>\<open>s.endsWith(p)\<close>, \<^verbatim>\<open>s.includes(p)\<close>.\<close>

definition startsWith :: "jsstring \<Rightarrow> jsstring \<Rightarrow> bool" where
  "startsWith s p = (take (length p) s = p)"

definition endsWith :: "jsstring \<Rightarrow> jsstring \<Rightarrow> bool" where
  "endsWith s p = (length p \<le> length s \<and> drop (length s - length p) s = p)"

primrec includesStr :: "jsstring \<Rightarrow> jsstring \<Rightarrow> bool" where
  "includesStr [] p = (p = [])"
| "includesStr (c # cs) p = (startsWith (c # cs) p \<or> includesStr cs p)"

text \<open>
  \<^verbatim>\<open>s.split(d)\<close> for a separator \<open>d\<close> of one code unit: the empty string splits into
  one empty segment. \<^verbatim>\<open>xs.join(d)\<close> puts \<open>d\<close> between the elements.
\<close>

primrec split :: "cu \<Rightarrow> jsstring \<Rightarrow> jsstring list" where
  "split d [] = [[]]"
| "split d (c # cs) =
     (if c = d then [] # split d cs
      else (case split d cs of [] \<Rightarrow> [[c]] | x # xs \<Rightarrow> (c # x) # xs))"

fun join :: "jsstring \<Rightarrow> jsstring list \<Rightarrow> jsstring" where
  "join d [] = []"
| "join d [x] = x"
| "join d (x # y # ys) = x @ d @ join d (y # ys)"

text \<open>
  \<^verbatim>\<open>s.replace(p, r)\<close> with a string pattern \<open>p\<close>: only the first occurrence of \<open>p\<close> is
  replaced (\<open>r\<close> holds no \<^verbatim>\<open>$\<close> pattern in this module).
\<close>

primrec replaceStr :: "jsstring \<Rightarrow> jsstring \<Rightarrow> jsstring \<Rightarrow> jsstring" where
  "replaceStr p r [] = (if p = [] then r else [])"
| "replaceStr p r (c # cs) =
     (if startsWith (c # cs) p then r @ drop (length p) (c # cs)
      else c # replaceStr p r cs)"

section \<open>Regular expressions with JavaScript's backtracking order\<close>

text \<open>
  The syntax covers what the module's eight regular expressions use: classes of code units,
  sequence, alternation, the greedy (\<open>True\<close>) and the lazy (\<open>False\<close>) star, capture groups
  and the anchors \<^verbatim>\<open>^\<close> and \<^verbatim>\<open>$\<close> (no \<^verbatim>\<open>m\<close> flag: start and end of the input only).
\<close>

datatype re =
    RChar "cu \<Rightarrow> bool"
  | REps
  | RSeq re re
  | RAlt re re
  | RStar bool re
  | RGroup nat re
  | RBol
  | REol

type_synonym caps = "nat \<rightharpoonup> jsstring"

text \<open>A matcher state: the index reached, the input from there on, the captures so far.\<close>

type_synonym mstate = "nat \<times> jsstring \<times> caps"

text \<open>
  \<open>rmatch e st\<close> lists every way \<open>e\<close> matches from \<open>st\<close>, in the order in which a
  backtracking matcher tries them; the head of the list is the match JavaScript reports.
  A greedy star tries one more iteration before stopping, a lazy one stops first; an
  iteration that consumes nothing is rejected, as ECMAScript's RepeatMatcher does.
\<close>

function (sequential) rmatch :: "re \<Rightarrow> mstate \<Rightarrow> mstate list" where
  "rmatch (RChar P) (i, [], k) = []"
| "rmatch (RChar P) (i, c # cs, k) = (if P c then [(Suc i, cs, k)] else [])"
| "rmatch REps st = [st]"
| "rmatch (RSeq a b) st = concat (map (rmatch b) (rmatch a st))"
| "rmatch (RAlt a b) st = rmatch a st @ rmatch b st"
| "rmatch (RStar greedy a) (i, r, k) =
     (let more = concat (map (\<lambda>(j, r', k').
                    if length r' < length r then rmatch (RStar greedy a) (j, r', k') else [])
                  (rmatch a (i, r, k)))
      in if greedy then more @ [(i, r, k)] else (i, r, k) # more)"
| "rmatch (RGroup n a) (i, r, k) =
     map (\<lambda>(j, r', k'). (j, r', k'(n \<mapsto> take (j - i) r))) (rmatch a (i, r, k))"
| "rmatch RBol (i, r, k) = (if i = 0 then [(i, r, k)] else [])"
| "rmatch REol (i, r, k) = (if r = [] then [(i, r, k)] else [])"
  by pat_completeness auto
termination
  by (relation "measures [\<lambda>(a, st). size a, \<lambda>(a, (i, r, k)). length r]") auto

text \<open>\<^verbatim>\<open>a+\<close>, \<^verbatim>\<open>a+?\<close>, \<^verbatim>\<open>a{1,2}\<close>, one code unit, a literal string, and \<^verbatim>\<open>.\<close>
  (any code unit but the four line terminators).\<close>

definition plusR :: "bool \<Rightarrow> re \<Rightarrow> re" where
  "plusR greedy a = RSeq a (RStar greedy a)"

definition rep12 :: "re \<Rightarrow> re" where
  "rep12 a = RSeq a (RAlt a REps)"

definition lit :: "cu \<Rightarrow> re" where
  "lit c = RChar (\<lambda>x. x = c)"

primrec lits :: "jsstring \<Rightarrow> re" where
  "lits [] = REps"
| "lits (c # cs) = RSeq (lit c) (lits cs)"

definition dot :: "cu \<Rightarrow> bool" where
  "dot c = (c \<noteq> 0x0A \<and> c \<noteq> 0x0D \<and> c \<noteq> 0x2028 \<and> c \<noteq> 0x2029)"

text \<open>
  \<open>search\<close> is \<^verbatim>\<open>RegExp.prototype.exec\<close> without the \<^verbatim>\<open>g\<close> flag: the leftmost
  start index with a match, and the first match there. \<open>test\<close>, \<open>replace\<close> (first match
  only) and \<open>replaceAll\<close> (\<^verbatim>\<open>g\<close> flag: every match, scanning on after each one; after an
  empty match the scan moves one code unit on) are built on it. The replacement is given as
  a function of the captures.
\<close>

primrec search :: "re \<Rightarrow> nat \<Rightarrow> jsstring \<Rightarrow> (nat \<times> mstate) option" where
  "search e i [] =
     (case rmatch e (i, [], Map.empty) of [] \<Rightarrow> None | m # _ \<Rightarrow> Some (i, m))"
| "search e i (c # cs) =
     (case rmatch e (i, c # cs, Map.empty) of
        [] \<Rightarrow> search e (Suc i) cs
      | m # _ \<Rightarrow> Some (i, m))"

definition test :: "re \<Rightarrow> jsstring \<Rightarrow> bool" where
  "test e s = (search e 0 s \<noteq> None)"

definition replace :: "re \<Rightarrow> (caps \<Rightarrow> jsstring) \<Rightarrow> jsstring \<Rightarrow> jsstring" where
  "replace e rep s =
     (case search e 0 s of
        None \<Rightarrow> s
      | Some (i, (j, r', k)) \<Rightarrow> take i s @ rep k @ drop j s)"

function replaceAll_from :: "re \<Rightarrow> (caps \<Rightarrow> jsstring) \<Rightarrow> nat \<Rightarrow> jsstring \<Rightarrow> jsstring" where
  "replaceAll_from e rep i [] =
     (case rmatch e (i, [], Map.empty) of [] \<Rightarrow> [] | (j, r', k) # _ \<Rightarrow> rep k)"
| "replaceAll_from e rep i (c # cs) =
     (case rmatch e (i, c # cs, Map.empty) of
        [] \<Rightarrow> c # replaceAll_from e rep (Suc i) cs
      | (j, r', k) # _ \<Rightarrow>
          if j \<le> i then rep k @ c # replaceAll_from e rep (Suc i) cs
          else rep k @ replaceAll_from e rep j (drop (j - i) (c # cs)))"
  by pat_completeness auto
termination
  by (relation "measure (\<lambda>(e, rep, i, r). length r)") auto

definition replaceAll :: "re \<Rightarrow> (caps \<Rightarrow> jsstring) \<Rightarrow> jsstring \<Rightarrow> jsstring" where
  "replaceAll e rep s = replaceAll_from e rep 0 s"

text \<open>The replacement \<^verbatim>\<open>'$1'\<close>: the first capture, empty when the group took no part.\<close>

definition dollar1 :: "caps \<Rightarrow> jsstring" where
  "dollar1 k = (case k 1 of None \<Rightarrow> [] | Some v \<Rightarrow> v)"

section \<open>The pure functions of the module\<close>

subsection \<open>filterDirectories\<close>

text \<open>\<^verbatim>\<open>/^.*(admin.*?).tpl$/\<close>: the \<^verbatim>\<open>.\<close> before \<^verbatim>\<open>tpl\<close> is not escaped.\<close>

definition tplRe :: re where
  "tplRe =
     RSeq RBol (RSeq (RStar True (RChar dot))
       (RSeq (RGroup 1 (RSeq (lits (js ''admin'')) (RStar False (RChar dot))))
         (RSeq (RChar dot) (RSeq (lits (js ''tpl'')) REol))))"

text \<open>\<^verbatim>\<open>/\/.*\//\<close>\<close>

definition subpathRe :: re where
  "subpathRe = RSeq (lit 0x2F) (RSeq (RStar True (RChar dot)) (lit 0x2F))"

text \<open>\<^verbatim>\<open>/manage\/(category|group|category-analytics)$/\<close>\<close>

definition manageRe :: re where
  "manageRe =
     RSeq (lits (js ''manage/''))
       (RSeq (RGroup 1 (RAlt (lits (js ''category''))
                 (RAlt (lits (js ''group'')) (lits (js ''category-analytics'')))))
          REol)"

text \<open>\<open>sep\<close> is \<^verbatim>\<open>path.sep\<close>: \<^verbatim>\<open>/\<close> on POSIX, a backslash on Windows.\<close>

definition filterDirectories :: "cu \<Rightarrow> jsstring list \<Rightarrow> jsstring list" where
  "filterDirectories sep directories =
     filter (\<lambda>dir.
         \<not> endsWith dir (js ''.js'') \<and>
         \<not> includesStr dir (js ''/partials/'') \<and>
         test subpathRe dir \<and>
         \<not> test manageRe dir)
       (map (\<lambda>dir. join [0x2F] (split sep (replace tplRe dollar1 dir))) directories)"

subsection \<open>simplify\<close>

text \<open>\<^verbatim>\<open>/(?:\{{1,2}[^}]*?\}{1,2})/g\<close>, \<^verbatim>\<open>/(?:[ \t]*[\n\r]+[ \t]*)+/g\<close> and \<^verbatim>\<open>/[\t ]+/g\<close>.\<close>

definition mustacheRe :: re where
  "mustacheRe =
     RSeq (rep12 (lit 0x7B))
       (RSeq (RStar False (RChar (\<lambda>c. c \<noteq> 0x7D))) (rep12 (lit 0x7D)))"

definition hws :: "cu \<Rightarrow> bool" where
  "hws c = (c = 0x20 \<or> c = 0x09)"

definition nl :: "cu \<Rightarrow> bool" where
  "nl c = (c = 0x0A \<or> c = 0x0D)"

definition blankLinesRe :: re where
  "blankLinesRe =
     plusR True (RSeq (RStar True (RChar hws))
                  (RSeq (plusR True (RChar nl)) (RStar True (RChar hws))))"

definition spacesRe :: re where
  "spacesRe = plusR True (RChar (\<lambda>c. c = 0x09 \<or> c = 0x20))"

definition simplify :: "jsstring \<Rightarrow> jsstring" where
  "simplify translations =
     replaceAll spacesRe (\<lambda>_. [0x20])
       (replaceAll blankLinesRe (\<lambda>_. [0x0A])
         (replaceAll mustacheRe (\<lambda>_. []) translations))"

subsection \<open>nsToTitle\<close>

text \<open>
  \<^verbatim>\<open>c.toUpperCase()\<close> for a string of one code unit: the ASCII letters are written out,
  the Unicode table for the code units from 0x80 on is the parameter \<open>U\<close> (some of them
  upper-case to several code units).
\<close>

definition toUpperCase1 :: "(cu \<Rightarrow> jsstring) \<Rightarrow> cu \<Rightarrow> jsstring" where
  "toUpperCase1 U c =
     (if 0x61 \<le> c \<and> c \<le> 0x7A then [c - 0x20]
      else if c < 0x80 then [c]
      else U c)"

text \<open>Errors: what a JavaScript function throws or a promise rejects with.
  \<open>TypeError\<close> and \<open>ErrorObj\<close> are instances of \<^verbatim>\<open>Error\<close>, \<open>NonError\<close> is any
  other thrown value.\<close>

datatype exn = TypeError | ErrorObj nat | NonError nat

primrec instanceofError :: "exn \<Rightarrow> bool" where
  "instanceofError TypeError = True"
| "instanceofError (ErrorObj n) = True"
| "instanceofError (NonError n) = False"

text \<open>\<^verbatim>\<open>str => str[0].toUpperCase() + str.slice(1)\<close>: on the empty string \<^verbatim>\<open>str[0]\<close> is
  \<^verbatim>\<open>undefined\<close> and the call of \<^verbatim>\<open>toUpperCase\<close> throws a TypeError.\<close>

definition capitalize :: "(cu \<Rightarrow> jsstring) \<Rightarrow> jsstring \<Rightarrow> exn + jsstring" where
  "capitalize U str =
     (case str of [] \<Rightarrow> Inl TypeError | c # cs \<Rightarrow> Inr (toUpperCase1 U c @ cs))"

text \<open>\<^verbatim>\<open>xs.map(f)\<close> for an \<open>f\<close> that may throw: the first throw ends the map.\<close>

primrec mapE :: "('a \<Rightarrow> exn + 'b) \<Rightarrow> 'a list \<Rightarrow> exn + 'b list" where
  "mapE f [] = Inr []"
| "mapE f (x # xs) =
     (case f x of
        Inl e \<Rightarrow> Inl e
      | Inr y \<Rightarrow> (case mapE f xs of Inl e \<Rightarrow> Inl e | Inr ys \<Rightarrow> Inr (y # ys)))"

text \<open>\<^verbatim>\<open>/[^a-zA-Z> ]/g\<close>\<close>

definition titleChar :: "cu \<Rightarrow> bool" where
  "titleChar c = ((0x61 \<le> c \<and> c \<le> 0x7A) \<or> (0x41 \<le> c \<and> c \<le> 0x5A) \<or> c = 0x3E \<or> c = 0x20)"

definition nonTitleRe :: re where
  "nonTitleRe = RChar (\<lambda>c. \<not> titleChar c)"

definition nsToTitle :: "(cu \<Rightarrow> jsstring) \<Rightarrow> jsstring \<Rightarrow> exn + jsstring" where
  "nsToTitle U ns =
     (case mapE (capitalize U) (split 0x2F (replaceStr (js ''admin/'') [] ns)) of
        Inl e \<Rightarrow> Inl e
      | Inr segs \<Rightarrow> Inr (replaceAll nonTitleRe (\<lambda>_. [0x20]) (join (js '' > '') segs)))"

subsection \<open>The title key of buildNamespace\<close>

text \<open>\<^verbatim>\<open>/admin\/(.+?)\/(.+?)$/\<close>\<close>

definition titleRe :: re where
  "titleRe =
     RSeq (lits (js ''admin/''))
       (RSeq (RGroup 1 (plusR False (RChar dot)))
         (RSeq (lit 0x2F) (RSeq (RGroup 2 (plusR False (RChar dot))) REol)))"

text \<open>A capture inside a template literal: \<^verbatim>\<open>undefined\<close> prints as that word.\<close>

definition interp :: "jsstring option \<Rightarrow> jsstring" where
  "interp v = (case v of None \<Rightarrow> js ''undefined'' | Some x \<Rightarrow> x)"

text \<open>
  Lines 124 to 130 of \<^verbatim>\<open>search.ts\<close>: \<^verbatim>\<open>namespace.match(...)\<close> and the template literal
  that builds the title. A capture is truthy when it is defined and not empty.
\<close>

definition titleKey :: "jsstring \<Rightarrow> jsstring" where
  "titleKey ns =
     (case search titleRe 0 ns of
        None \<Rightarrow> []
      | Some (i, (j, r', titleMatch)) \<Rightarrow>
          js ''[[admin/menu:section-'' @
          (if titleMatch 1 = Some (js ''development'') then js ''advanced''
           else interp (titleMatch 1)) @
          js '']]'' @
          (if titleMatch 2 \<noteq> None \<and> titleMatch 2 \<noteq> Some []
           then js '' > [[admin/menu:'' @ interp (titleMatch 1) @ js ''/'' @
                interp (titleMatch 2) @ js '']]''
           else []))"

section \<open>The module's state and its collaborators\<close>

text \<open>
  A dictionary entry; \<open>title = None\<close> is an absent (\<^verbatim>\<open>undefined\<close>) title. The
  field \<^verbatim>\<open>translations\<close> is \<open>translations_str\<close> here (the plain name is reserved).
\<close>

record entry =
  namespace :: jsstring
  translations_str :: jsstring
  title :: "jsstring option"

text \<open>
  The translator (\<^verbatim>\<open>../translator\<close>), the directory walker (\<^verbatim>\<open>../file\<close>), the file
  system, the HTML sanitizer and the configuration are not part of the module: they are
  parameters. A translation table is given by its values in the order of
  \<^verbatim>\<open>Object.values\<close>; \<open>None\<close> is a falsy answer. \<open>readFile env ns\<close> is the read of
  \<^verbatim>\<open><views_dir>/<ns>.tpl\<close>, \<open>walk env\<close> the walk of \<^verbatim>\<open><views_dir>/admin\<close>. Each of them
  answers the same way every time it is asked.
\<close>

record translator =
  getTranslation :: "jsstring \<Rightarrow> exn + jsstring list option"
  translate :: "jsstring \<Rightarrow> exn + jsstring"

record env =
  path_sep :: cu
  walk :: "exn + jsstring list"
  readFile :: "jsstring \<Rightarrow> exn + jsstring"
  sanitizeHTML :: "jsstring \<Rightarrow> jsstring"
  removePatterns :: "jsstring \<Rightarrow> jsstring"
  Translator_create :: "jsstring \<Rightarrow> exn + translator"
  upperTable :: "cu \<Rightarrow> jsstring"

text \<open>
  The two module-level caches, and a log of the calls made to the collaborators (the
  call-count spy of the specification's tests). The caches are objects indexed by strings,
  as their interfaces \<^verbatim>\<open>FallbackCache\<close> and \<^verbatim>\<open>DictCache\<close> declare: a key is either
  absent or bound to a value of the declared type, and a stored value is truthy. Keys that
  are names of \<^verbatim>\<open>Object.prototype\<close> (\<^verbatim>\<open>constructor\<close>, \<^verbatim>\<open>toString\<close>, ...) are outside
  this model: a namespace that \<open>filterDirectories\<close> lets through holds a slash, and a
  language is a locale code.
\<close>

datatype event =
    Walk
  | ReadFile jsstring
  | Create jsstring
  | GetTranslation jsstring jsstring
  | Translate jsstring jsstring
  | LogError exn

record state =
  fallbackCache :: "jsstring \<rightharpoonup> entry"
  cache :: "jsstring \<rightharpoonup> entry list"
  trace :: "event list"

definition emit :: "event \<Rightarrow> state \<Rightarrow> state" where
  "emit ev s = s\<lparr>trace := trace s @ [ev]\<rparr>"

text \<open>
  An async function takes the state and returns the updated state with either the value
  its promise resolves to (\<open>Inr\<close>) or the error it rejects with (\<open>Inl\<close>).
\<close>

type_synonym 'a async = "state \<Rightarrow> (exn + 'a) \<times> state"

definition getAdminNamespaces :: "env \<Rightarrow> jsstring list async" where
  "getAdminNamespaces env s =
     (case walk env of
        Inl e \<Rightarrow> (Inl e, emit Walk s)
      | Inr directories \<Rightarrow> (Inr (filterDirectories (path_sep env) directories), emit Walk s))"

definition sanitize :: "env \<Rightarrow> jsstring \<Rightarrow> jsstring" where
  "sanitize env html = sanitizeHTML env html"

definition initFallback :: "env \<Rightarrow> jsstring \<Rightarrow> entry async" where
  "initFallback env ns s =
     (let s1 = emit (ReadFile ns) s in
      case readFile env ns of
        Inl e \<Rightarrow> (Inl e, s1)
      | Inr template \<Rightarrow>
          (case nsToTitle (upperTable env) ns of
             Inl e \<Rightarrow> (Inl e, s1)
           | Inr t \<Rightarrow>
               (Inr \<lparr>namespace = ns,
                     translations_str =
                       simplify (removePatterns env (sanitize env template)) @ [0x0A] @ t,
                     title = Some t\<rparr>, s1)))"

definition fallback :: "env \<Rightarrow> jsstring \<Rightarrow> entry async" where
  "fallback env ns s =
     (case fallbackCache s ns of
        Some e \<Rightarrow> (Inr e, s)
      | None \<Rightarrow>
          (case initFallback env ns s of
             (Inl e, s1) \<Rightarrow> (Inl e, s1)
           | (Inr params, s1) \<Rightarrow>
               (Inr params, s1\<lparr>fallbackCache := (fallbackCache s1)(ns \<mapsto> params)\<rparr>)))"

text \<open>The \<^verbatim>\<open>catch\<close> block of \<open>buildNamespace\<close>.\<close>

definition catchBlock :: "jsstring \<Rightarrow> exn \<Rightarrow> entry async" where
  "catchBlock ns err s =
     (Inr \<lparr>namespace = ns, translations_str = [], title = None\<rparr>,
      if instanceofError err then emit (LogError err) s else s)"

text \<open>
  \<^verbatim>\<open>Translator.create\<close> is called before the \<^verbatim>\<open>try\<close>; everything else, the awaited
  call of \<open>fallback\<close> included, is inside it.
\<close>

definition buildNamespace :: "env \<Rightarrow> jsstring \<Rightarrow> jsstring \<Rightarrow> entry async" where
  "buildNamespace env language ns s =
     (let s0 = emit (Create language) s in
      case Translator_create env language of
        Inl e \<Rightarrow> (Inl e, s0)
      | Inr tr \<Rightarrow>
          (let s1 = emit (GetTranslation language ns) s0 in
           case getTranslation tr ns of
             Inl err \<Rightarrow> catchBlock ns err s1
           | Inr tbl \<Rightarrow>
               if tbl = None \<or> tbl = Some [] then
                 (case fallback env ns s1 of
                    (Inl err, s2) \<Rightarrow> catchBlock ns err s2
                  | (Inr e, s2) \<Rightarrow> (Inr e, s2))
               else
                 (let str = sanitize env (join [0x0A] (the tbl));
                      t = titleKey ns;
                      s2 = emit (Translate language t) s1
                  in case translate tr t of
                       Inl err \<Rightarrow> catchBlock ns err s2
                     | Inr translatedTitle \<Rightarrow>
                         (Inr \<lparr>namespace = ns,
                               translations_str = str @ [0x0A] @ t,
                               title = Some translatedTitle\<rparr>, s2))))"

text \<open>
  \<^verbatim>\<open>Promise.all\<close> resolves with the list of the values of the builds, or rejects with the
  rejection of a build that rejected.
\<close>

primrec runAll :: "('s \<Rightarrow> 'r \<times> 's) list \<Rightarrow> 's \<Rightarrow> 'r list \<times> 's" where
  "runAll [] s = ([], s)"
| "runAll (t # ts) s =
     (case t s of (r, s1) \<Rightarrow> (case runAll ts s1 of (rs, s2) \<Rightarrow> (r # rs, s2)))"

primrec Promise_all :: "(exn + 'a) list \<Rightarrow> exn + 'a list" where
  "Promise_all [] = Inr []"
| "Promise_all (r # rs) =
     (case r of
        Inl e \<Rightarrow> Inl e
      | Inr v \<Rightarrow> (case Promise_all rs of Inl e \<Rightarrow> Inl e | Inr vs \<Rightarrow> Inr (v # vs)))"

subsection \<open>Builds that overlap\<close>

text \<open>
  In \<^verbatim>\<open>Promise.all(namespaces.map(ns => buildNamespace(language, ns)))\<close> the \<^verbatim>\<open>map\<close> calls
  \<open>buildNamespace\<close> for every namespace in turn, and each call runs up to its first
  \<^verbatim>\<open>await\<close> only: the translator is created and \<^verbatim>\<open>getTranslation\<close> is called. No build
  continues before all of them have started, and from there they continue one \<^verbatim>\<open>await\<close> at
  a time, in an order that the module does not determine. The function \<open>buildNamespace\<close>
  above is one build with nothing in between; here is the same code cut at its
  \<^verbatim>\<open>await\<close>s.

  A build that waits is a \<open>task\<close>, with one constructor for each \<^verbatim>\<open>await\<close> and the values
  its continuation uses:

  \<^item> \<open>AwaitGetTranslation\<close>: \<^verbatim>\<open>await translator.getTranslation(namespace)\<close> in
    \<open>buildNamespace\<close>;
  \<^item> \<open>AwaitReadFile\<close>: \<^verbatim>\<open>await fs.promises.readFile(...)\<close> in \<open>initFallback\<close>;
  \<^item> \<open>AwaitInitFallback\<close>: \<^verbatim>\<open>await initFallback(namespace)\<close> in \<open>fallback\<close>, with the
    outcome of \<open>initFallback\<close>;
  \<^item> \<open>AwaitFallback\<close>: \<^verbatim>\<open>await fallback(namespace)\<close> in \<open>buildNamespace\<close>, with the outcome
    of \<open>fallback\<close>;
  \<^item> \<open>AwaitTranslate\<close>: \<^verbatim>\<open>await translator.translate(title)\<close> in \<open>buildNamespace\<close>, with
    the sanitized string and the title key;
  \<^item> \<open>Settled\<close>: the promise of \<open>buildNamespace\<close> is resolved or rejected.
\<close>

datatype task =
    AwaitGetTranslation jsstring jsstring translator
  | AwaitReadFile jsstring
  | AwaitInitFallback jsstring "exn + entry"
  | AwaitFallback jsstring "exn + entry"
  | AwaitTranslate jsstring translator jsstring jsstring
  | Settled "exn + entry"

text \<open>The call of \<open>buildNamespace\<close>, up to its first \<^verbatim>\<open>await\<close>.\<close>

definition startBuild :: "env \<Rightarrow> jsstring \<Rightarrow> jsstring \<Rightarrow> state \<Rightarrow> task \<times> state" where
  "startBuild env language ns s =
     (let s0 = emit (Create language) s in
      case Translator_create env language of
        Inl e \<Rightarrow> (Settled (Inl e), s0)
      | Inr tr \<Rightarrow> (AwaitGetTranslation language ns tr, emit (GetTranslation language ns) s0))"

definition settle :: "(exn + entry) \<times> state \<Rightarrow> task \<times> state" where
  "settle p = (Settled (fst p), snd p)"

text \<open>
  One step of a build, from the \<^verbatim>\<open>await\<close> it waits at to its next one. The test of the
  fallback cache and, on a miss, the call of \<^verbatim>\<open>readFile\<close> happen in the step that receives
  the translation table; the entry is stored in the fallback cache two steps later, when
  \<open>fallback\<close> receives the outcome of \<open>initFallback\<close>. Of \<open>initFallback env ns s\<close>, the
  state (the read is logged) belongs to the step that calls it and the value to the step
  that receives the file.
\<close>

definition resume :: "env \<Rightarrow> task \<Rightarrow> state \<Rightarrow> task \<times> state" where
  "resume env t s =
     (case t of
        AwaitGetTranslation language ns tr \<Rightarrow>
          (case getTranslation tr ns of
             Inl err \<Rightarrow> settle (catchBlock ns err s)
           | Inr tbl \<Rightarrow>
               if tbl = None \<or> tbl = Some [] then
                 (case fallbackCache s ns of
                    Some e \<Rightarrow> (AwaitFallback ns (Inr e), s)
                  | None \<Rightarrow> (AwaitReadFile ns, snd (initFallback env ns s)))
               else
                 (let str = sanitize env (join [0x0A] (the tbl));
                      t = titleKey ns
                  in (AwaitTranslate ns tr str t, emit (Translate language t) s)))
      | AwaitReadFile ns \<Rightarrow> (AwaitInitFallback ns (fst (initFallback env ns s)), s)
      | AwaitInitFallback ns r \<Rightarrow>
          (case r of
             Inl e \<Rightarrow> (AwaitFallback ns (Inl e), s)
           | Inr params \<Rightarrow>
               (AwaitFallback ns (Inr params),
                s\<lparr>fallbackCache := (fallbackCache s)(ns \<mapsto> params)\<rparr>))
      | AwaitFallback ns r \<Rightarrow>
          (case r of
             Inl err \<Rightarrow> settle (catchBlock ns err s)
           | Inr e \<Rightarrow> (Settled (Inr e), s))
      | AwaitTranslate ns tr str t \<Rightarrow>
          (case translate tr t of
             Inl err \<Rightarrow> settle (catchBlock ns err s)
           | Inr translatedTitle \<Rightarrow>
               (Settled (Inr \<lparr>namespace = ns,
                              translations_str = str @ [0x0A] @ t,
                              title = Some translatedTitle\<rparr>), s))
      | Settled r \<Rightarrow> (Settled r, s))"

text \<open>The number of steps a task is away from \<open>Settled\<close>, at most.\<close>

primrec rank :: "task \<Rightarrow> nat" where
  "rank (AwaitGetTranslation language ns tr) = 4"
| "rank (AwaitReadFile ns) = 3"
| "rank (AwaitInitFallback ns r) = 2"
| "rank (AwaitFallback ns r) = 1"
| "rank (AwaitTranslate ns tr str t) = 1"
| "rank (Settled r) = 0"

text \<open>A build run from where it waits to its end, with no other build in between.\<close>

function (sequential) finish :: "env \<Rightarrow> task \<Rightarrow> state \<Rightarrow> (exn + entry) \<times> state" where
  "finish env (Settled r) s = (r, s)"
| "finish env t s = (case resume env t s of (t', s') \<Rightarrow> finish env t' s')"
  by pat_completeness auto
termination
  by (relation "measure (\<lambda>(env, t, s). rank t)")
     (auto simp: resume_def settle_def Let_def split: sum.splits option.splits if_splits)

text \<open>
  A schedule is the list of the builds that are resumed, by their index in the list of
  builds, in the order in which they are resumed. An index beyond the list is passed over,
  and resuming a settled build changes nothing.
\<close>

primrec runSchedule :: "env \<Rightarrow> nat list \<Rightarrow> task list \<Rightarrow> state \<Rightarrow> task list \<times> state" where
  "runSchedule env [] ts s = (ts, s)"
| "runSchedule env (i # sched) ts s =
     (if i < length ts
      then (case resume env (ts ! i) s of (t', s') \<Rightarrow> runSchedule env sched (ts[i := t']) s')
      else runSchedule env sched ts s)"

text \<open>
  The builds of a list of calls (language, namespace): all of them are started, in list
  order; then they are resumed as the schedule says; \<^verbatim>\<open>Promise.all\<close> waits for every build,
  so the builds that the schedule has left waiting are then run to their end, in list
  order. With the empty schedule the builds run one after the other once they have
  started; with the schedule \<open>[0, 1]\<close> the first two builds have each taken one step before
  either takes its second.
\<close>

definition runBuilds ::
  "env \<Rightarrow> nat list \<Rightarrow> (jsstring \<times> jsstring) list \<Rightarrow> state \<Rightarrow> (exn + entry) list \<times> state" where
  "runBuilds env sched calls s =
     (case runAll (map (\<lambda>(language, ns). startBuild env language ns) calls) s of
        (ts, s1) \<Rightarrow>
          (case runSchedule env sched ts s1 of
             (ts', s2) \<Rightarrow> runAll (map (finish env) ts') s2))"

text \<open>
  \<open>initDict\<close> and \<open>getDictionary\<close> take the schedule of the builds as a parameter: it stands
  for the order in which the event loop delivers the results awaited by the builds.
\<close>

definition initDict :: "env \<Rightarrow> nat list \<Rightarrow> jsstring \<Rightarrow> entry list async" where
  "initDict env sched language s =
     (case getAdminNamespaces env s of
        (Inl e, s1) \<Rightarrow> (Inl e, s1)
      | (Inr namespaces, s1) \<Rightarrow>
          (case runBuilds env sched (map (Pair language) namespaces) s1 of
             (rs, s2) \<Rightarrow> (Promise_all rs, s2)))"

definition getDictionary :: "env \<Rightarrow> nat list \<Rightarrow> jsstring \<Rightarrow> entry list async" where
  "getDictionary env sched language s =
     (case cache s language of
        Some d \<Rightarrow> (Inr d, s)
      | None \<Rightarrow>
          (case initDict env sched language s of
             (Inl e, s1) \<Rightarrow> (Inl e, s1)
           | (Inr params, s1) \<Rightarrow> (Inr params, s1\<lparr>cache := (cache s1)(language \<mapsto> params)\<rparr>)))"

subsection \<open>Notions used in the proofs about overlapping builds\<close>

text \<open>
  A waiting build is \<open>coherent\<close> with a state when what it holds of the Fallback Builder is
  what the Fallback Builder returns, and agrees with the fallback cache where the cache has
  an entry. \<open>outcome env s t\<close> is the value that the task \<open>t\<close> settles with when it is run to
  its end from \<open>s\<close> (lemma \<open>finish_outcome\<close>), \<open>caught\<close> the effect of the \<^verbatim>\<open>catch\<close> block on
  a value. \<open>awaitsTable ns t\<close> holds of a build for the namespace \<open>ns\<close> that has not yet
  received its translation table.
\<close>

definition coherent :: "env \<Rightarrow> state \<Rightarrow> task \<Rightarrow> bool" where
  "coherent env s t =
     (case t of
        AwaitReadFile ns \<Rightarrow>
          (\<forall>e. fallbackCache s ns = Some e \<longrightarrow> fst (initFallback env ns s) = Inr e)
      | AwaitInitFallback ns r \<Rightarrow>
          r = fst (initFallback env ns s) \<and> (\<forall>e. fallbackCache s ns = Some e \<longrightarrow> r = Inr e)
      | _ \<Rightarrow> True)"

definition caught :: "jsstring \<Rightarrow> exn + entry \<Rightarrow> exn + entry" where
  "caught ns r =
     (case r of
        Inl err \<Rightarrow> Inr \<lparr>namespace = ns, translations_str = [], title = None\<rparr>
      | Inr e \<Rightarrow> Inr e)"

definition outcome :: "env \<Rightarrow> state \<Rightarrow> task \<Rightarrow> exn + entry" where
  "outcome env s t =
     (case t of
        AwaitGetTranslation language ns tr \<Rightarrow>
          (case getTranslation tr ns of
             Inl err \<Rightarrow> caught ns (Inl err)
           | Inr tbl \<Rightarrow>
               if tbl = None \<or> tbl = Some [] then
                 (case fallbackCache s ns of
                    Some e \<Rightarrow> Inr e
                  | None \<Rightarrow> caught ns (fst (initFallback env ns s)))
               else
                 (case translate tr (titleKey ns) of
                    Inl err \<Rightarrow> caught ns (Inl err)
                  | Inr translatedTitle \<Rightarrow>
                      Inr \<lparr>namespace = ns,
                           translations_str =
                             sanitize env (join [0x0A] (the tbl)) @ [0x0A] @ titleKey ns,
                           title = Some translatedTitle\<rparr>))
      | AwaitReadFile ns \<Rightarrow> caught ns (fst (initFallback env ns s))
      | AwaitInitFallback ns r \<Rightarrow> caught ns r
      | AwaitFallback ns r \<Rightarrow> caught ns r
      | AwaitTranslate ns tr str t \<Rightarrow>
          (case translate tr t of
             Inl err \<Rightarrow> caught ns (Inl err)
           | Inr translatedTitle \<Rightarrow>
               Inr \<lparr>namespace = ns, translations_str = str @ [0x0A] @ t,
                    title = Some translatedTitle\<rparr>)
      | Settled r \<Rightarrow> r)"


section \<open>The three replacements of simplify, written as scans\<close>

text \<open>
  What the three global replacements of \<open>simplify\<close> do, as recursive functions on the
  string; they are proved equal to the replacements by regular expression below and serve
  the proofs about \<open>simplify\<close>. A blank-line match starts where a run of spaces and tabs is
  followed by a line break, and takes the whole run of white space from there.
\<close>

definition ws :: "cu \<Rightarrow> bool" where
  "ws c = (hws c \<or> nl c)"

definition blankStart :: "jsstring \<Rightarrow> bool" where
  "blankStart r = (case dropWhile hws r of [] \<Rightarrow> False | d # _ \<Rightarrow> nl d)"

function collapseSpaces :: "jsstring \<Rightarrow> jsstring" where
  "collapseSpaces [] = []"
| "collapseSpaces (c # cs) =
     (if hws c then 0x20 # collapseSpaces (dropWhile hws cs) else c # collapseSpaces cs)"
  by pat_completeness auto
termination
  by (relation "measure length") (auto simp: length_dropWhile_le less_Suc_eq_le)

function collapseBlankLines :: "jsstring \<Rightarrow> jsstring" where
  "collapseBlankLines [] = []"
| "collapseBlankLines (c # cs) =
     (if blankStart (c # cs) then 0x0A # collapseBlankLines (dropWhile ws cs)
      else c # collapseBlankLines cs)"
  by pat_completeness auto
termination
  by (relation "measure length") (auto simp: length_dropWhile_le less_Suc_eq_le)

definition afterClose :: "jsstring \<Rightarrow> jsstring" where
  "afterClose r =
     (case r of
        [] \<Rightarrow> []
      | x # r' \<Rightarrow> (case r' of [] \<Rightarrow> [] | y # r'' \<Rightarrow> if y = 0x7D then r'' else r'))"

function removeMustaches :: "jsstring \<Rightarrow> jsstring" where
  "removeMustaches [] = []"
| "removeMustaches (c # cs) =
     (if c = 0x7B \<and> 0x7D \<in> set cs
      then removeMustaches (afterClose (dropWhile (\<lambda>x. x \<noteq> 0x7D) cs))
      else c # removeMustaches cs)"
  by pat_completeness auto
termination
proof (relation "measure length")
  fix c :: cu and cs :: jsstring
  have "length (afterClose (dropWhile (\<lambda>x. x \<noteq> 0x7D) cs)) \<le> length (dropWhile (\<lambda>x. x \<noteq> 0x7D) cs)"
    by (simp add: afterClose_def split: list.splits)
  also have "\<dots> \<le> length cs" by (rule length_dropWhile_le)
  finally show "c = 0x7B \<and> 0x7D \<in> set cs \<Longrightarrow>
     (afterClose (dropWhile (\<lambda>x. x \<noteq> 0x7D) cs), c # cs) \<in> measure length" by simp
qed simp_all

text \<open>
  \<open>braceFree\<close>: no opening brace with a closing brace anywhere after it, so no mustache is
  left. \<open>blankFree\<close>: no carriage return, no line break next to white space, so no
  blank-line match would change the string.
\<close>

fun braceFree :: "jsstring \<Rightarrow> bool" where
  "braceFree [] = True"
| "braceFree (c # cs) = ((c = 0x7B \<longrightarrow> 0x7D \<notin> set cs) \<and> braceFree cs)"

fun blankFree :: "jsstring \<Rightarrow> bool" where
  "blankFree [] = True"
| "blankFree [a] = (a \<noteq> 0x0D)"
| "blankFree (a # b # cs) =
     (a \<noteq> 0x0D \<and> \<not> (nl a \<and> ws b) \<and> \<not> (hws a \<and> nl b) \<and> blankFree (b # cs))"

section \<open>The specification's wording, for comparison\<close>

text \<open>
  \<open>titleCase\<close> upper-cases the first code unit of a segment; on a segment that is not
  empty it is what \<open>capitalize\<close> returns. \<open>specTitle\<close> follows the specification's
  description of the fallback title: drop the prefix \<^verbatim>\<open>admin/\<close>, split on \<^verbatim>\<open>/\<close>, title-case
  each segment, join with \<^verbatim>\<open> > \<close>, and strip every character outside letters, \<^verbatim>\<open>>\<close> and
  space.
\<close>

definition titleCase :: "(cu \<Rightarrow> jsstring) \<Rightarrow> jsstring \<Rightarrow> jsstring" where
  "titleCase U seg = (case seg of [] \<Rightarrow> [] | c # cs \<Rightarrow> toUpperCase1 U c @ cs)"

definition dropPrefix :: "jsstring \<Rightarrow> jsstring \<Rightarrow> jsstring" where
  "dropPrefix p s = (if startsWith s p then drop (length p) s else s)"

definition specTitle :: "(cu \<Rightarrow> jsstring) \<Rightarrow> jsstring \<Rightarrow> jsstring" where
  "specTitle U ns =
     filter titleChar
       (join (js '' > '') (map (titleCase U) (split 0x2F (dropPrefix (js ''admin/'') ns))))"

text \<open>
  \<open>specTitleKey\<close> follows the specification's description of the title key: the section
  token \<^verbatim>\<open>development\<close> is replaced by \<^verbatim>\<open>advanced\<close>, and the key is
  \<^verbatim>\<open>[[admin/menu:section-<section>]]\<close> followed by \<^verbatim>\<open> > [[admin/menu:<section>/<page>]]\<close>.
\<close>

definition specTitleKey :: "jsstring \<Rightarrow> jsstring \<Rightarrow> jsstring" where
  "specTitleKey sect page =
     (let s = (if sect = js ''development'' then js ''advanced'' else sect)
      in js ''[[admin/menu:section-'' @ s @ js '']]'' @
         js '' > [[admin/menu:'' @ s @ js ''/'' @ page @ js '']]'')"

section \<open>A small installation to run the module on\<close>

text \<open>
  Four admin pages. The translator has a table for \<^verbatim>\<open>admin/manage/users\<close> and for
  \<^verbatim>\<open>admin/development/logger\<close>, throws on \<^verbatim>\<open>admin/settings/general\<close>, has an empty table
  for \<^verbatim>\<open>admin/extend/plugins\<close> and none for any other namespace; the only template file
  that can be read is the one of \<^verbatim>\<open>admin/extend/plugins\<close>. The sanitizer and the pattern
  remover are stand-ins that return their input.
\<close>

definition demoTranslator :: translator where
  "demoTranslator =
     \<lparr>getTranslation = (\<lambda>ns.
          if ns = js ''admin/manage/users'' then Inr (Some [js ''Users'', js ''Edit user''])
          else if ns = js ''admin/development/logger'' then Inr (Some [js ''Logger''])
          else if ns = js ''admin/settings/general'' then Inl (ErrorObj 1)
          else if ns = js ''admin/extend/plugins'' then Inr (Some [])
          else Inr None),
      translate = (\<lambda>key.
          if key = js ''[[admin/menu:section-manage]] > [[admin/menu:manage/users]]''
          then Inr (js ''Manage > Users'')
          else Inr key)\<rparr>"

definition demoEnv :: env where
  "demoEnv =
     \<lparr>path_sep = 0x2F,
      walk = Inr [js ''/v/admin/manage/users.tpl'', js ''/v/admin/settings/general.tpl'',
                  js ''/v/admin/extend/plugins.tpl'', js ''/v/admin/extend/widgets.tpl''],
      readFile = (\<lambda>ns. if ns = js ''admin/extend/plugins''
                        then Inr (js ''Plugins  {{count}} '' @ [0x0A, 0x0A] @ js ''Find'')
                        else Inl (ErrorObj 2)),
      sanitizeHTML = (\<lambda>html. html),
      removePatterns = (\<lambda>text. text),
      Translator_create = (\<lambda>language. if language = [] then Inl TypeError
                                       else Inr demoTranslator),
      upperTable = (\<lambda>c. [c])\<rparr>"

definition state0 :: state where
  "state0 = \<lparr>fallbackCache = Map.empty, cache = Map.empty, trace = []\<rparr>"

section \<open>What the regular expressions match\<close>

text \<open>
  The star's equation is recursive; it is unfolded by hand where needed.
\<close>

declare rmatch.simps(6) [simp del]

lemma upt_Suc_shift: "map f [0..<Suc m] = f 0 # map (\<lambda>n. f (Suc n)) [0..<m]"
  by (simp add: upt_conv_Cons map_Suc_upt [symmetric] del: upt_Suc)

lemma rmatch_star_class:
  "rmatch (RStar g (RChar P)) (i, r, k) =
     (if g then rev (map (\<lambda>n. (i + n, drop n r, k)) [0..<Suc (length (takeWhile P r))])
      else map (\<lambda>n. (i + n, drop n r, k)) [0..<Suc (length (takeWhile P r))])"
proof (induction r arbitrary: i)
  case Nil
  show ?case by (simp add: rmatch.simps(6))
next
  case (Cons c cs)
  show ?case
  proof (cases "P c")
    case False
    then show ?thesis by (simp add: rmatch.simps(6))
  next
    case True
    have "map (\<lambda>n. (i + n, drop n (c # cs), k)) [0..<Suc (Suc (length (takeWhile P cs)))]
        = (i, c # cs, k) # map (\<lambda>n. (Suc i + n, drop n cs, k)) [0..<Suc (length (takeWhile P cs))]"
      by (subst upt_Suc_shift) simp
    with True Cons [of "Suc i"] show ?thesis
      by (simp add: rmatch.simps(6) del: upt_Suc)
  qed
qed


lemma rmatch_advances:
  "(j, r', k') \<in> set (rmatch e (i, r, k)) \<Longrightarrow> \<exists>n. n \<le> length r \<and> j = i + n \<and> r' = drop n r"
proof (induction e "(i, r, k)" arbitrary: i r k j r' k' rule: rmatch.induct)
  case (1 P i k)
  then show ?case by simp
next
  case (2 P i c cs k)
  then show ?case by (auto split: if_splits intro: exI[of _ 1])
next
  case (3 i r k)
  then show ?case by auto
next
  case (4 a b i r k)
  from 4(3) obtain j1 r1 k1 where m1: "(j1, r1, k1) \<in> set (rmatch a (i, r, k))"
    and m2: "(j, r', k') \<in> set (rmatch b (j1, r1, k1))" by auto
  from 4(1) [OF m1] obtain n1 where n1: "n1 \<le> length r" "j1 = i + n1" "r1 = drop n1 r" by blast
  from 4(2) [OF m1 m2] obtain n2 where n2: "n2 \<le> length r1" "j = j1 + n2" "r' = drop n2 r1" by blast
  from n1 n2 show ?case by (intro exI[of _ "n1 + n2"]) (auto simp: add.commute)
next
  case (5 a b i r k)
  then show ?case by auto
next
  case (6 g a i r k)
  have "set (rmatch (RStar g a) (i, r, k)) =
      insert (i, r, k) (\<Union>m \<in> set (rmatch a (i, r, k)).
         set (case m of (j1, r1, k1) \<Rightarrow>
                if length r1 < length r then rmatch (RStar g a) (j1, r1, k1) else []))"
    by (subst rmatch.simps(6)) (auto simp: Let_def)
  with 6(3) have "(j, r', k') = (i, r, k) \<or>
    (\<exists>j1 r1 k1. (j1, r1, k1) \<in> set (rmatch a (i, r, k)) \<and> length r1 < length r \<and>
       (j, r', k') \<in> set (rmatch (RStar g a) (j1, r1, k1)))"
    by (fastforce split: if_splits)
  then show ?case
  proof
    assume "(j, r', k') = (i, r, k)"
    then show ?thesis by (intro exI[of _ 0]) simp
  next
    assume "\<exists>j1 r1 k1. (j1, r1, k1) \<in> set (rmatch a (i, r, k)) \<and> length r1 < length r \<and>
       (j, r', k') \<in> set (rmatch (RStar g a) (j1, r1, k1))"
    then obtain j1 r1 k1 where m1: "(j1, r1, k1) \<in> set (rmatch a (i, r, k))"
      and lt: "length r1 < length r"
      and m2: "(j, r', k') \<in> set (rmatch (RStar g a) (j1, r1, k1))" by blast
    from 6(1) [OF m1] obtain n1 where n1: "n1 \<le> length r" "j1 = i + n1" "r1 = drop n1 r" by blast
    from 6(2) [OF m1 _ _ lt m2] obtain n2 where n2: "n2 \<le> length r1" "j = j1 + n2" "r' = drop n2 r1"
      by auto
    from n1 n2 show ?thesis by (intro exI[of _ "n1 + n2"]) (auto simp: add.commute)
  qed
next
  case (7 n a i r k)
  then show ?case by auto
next
  case (8 i r k)
  then show ?case by (auto split: if_splits)
next
  case (9 i r k)
  then show ?case by (auto split: if_splits)
qed

lemma replaceAll_from_match:
  assumes m: "rmatch e (i, c # cs, Map.empty) = (j, r', k) # ms"
    and ne: "length r' < Suc (length cs)"
  shows "replaceAll_from e rep i (c # cs) = rep k @ replaceAll_from e rep j r'"
proof -
  from m have "(j, r', k) \<in> set (rmatch e (i, c # cs, Map.empty))" by simp
  from rmatch_advances [OF this] obtain n where
    n: "n \<le> length (c # cs)" "j = i + n" "r' = drop n (c # cs)" by blast
  with ne have "0 < n" by (cases n) auto
  with n have "\<not> j \<le> i" "drop (j - i) (c # cs) = r'" by simp_all
  with m show ?thesis by simp
qed

lemma replaceAll_from_nomatch:
  "rmatch e (i, c # cs, Map.empty) = [] \<Longrightarrow>
   replaceAll_from e rep i (c # cs) = c # replaceAll_from e rep (Suc i) cs"
  by simp

lemma rev_upt_head: "rev (map f [0..<Suc m]) = f m # rev (map f [0..<m])"
  by simp

lemma hws_class: "(\<lambda>c. c = 0x09 \<or> c = 0x20) = hws"
  by (auto simp: hws_def fun_eq_iff)

lemma rmatch_spacesRe:
  "rmatch spacesRe (i, c # cs, k) =
     (if hws c then rev (map (\<lambda>n. (Suc i + n, drop n cs, k)) [0..<Suc (length (takeWhile hws cs))])
      else [])"
  by (simp add: spacesRe_def plusR_def hws_class rmatch_star_class del: upt_Suc)

lemma replaceAll_spaces: "replaceAll_from spacesRe (\<lambda>_. [0x20]) i r = collapseSpaces r"
proof (induction r arbitrary: i rule: collapseSpaces.induct)
  case 1
  show ?case by (simp add: spacesRe_def plusR_def)
next
  case (2 c cs)
  show ?case
  proof (cases "hws c")
    case True
    let ?L = "length (takeWhile hws cs)"
    have m: "rmatch spacesRe (i, c # cs, Map.empty) =
       (Suc i + ?L, dropWhile hws cs, Map.empty) #
         rev (map (\<lambda>n. (Suc i + n, drop n cs, Map.empty)) [0..<?L])"
      using True by (simp add: rmatch_spacesRe rev_upt_head dropWhile_eq_drop del: upt_Suc)
    have "length (dropWhile hws cs) < Suc (length cs)"
      by (simp add: length_dropWhile_le less_Suc_eq_le)
    from replaceAll_from_match [OF m this] 2(1) [OF True] True show ?thesis by simp
  next
    case False
    then have "rmatch spacesRe (i, c # cs, Map.empty) = []" by (simp add: rmatch_spacesRe)
    from replaceAll_from_nomatch [OF this] 2(2) [OF False] False show ?thesis by simp
  qed
qed

lemma rmatch_rep12_lit:
  "rmatch (rep12 (lit x)) (i, r, k) =
     (case r of
        [] \<Rightarrow> []
      | c # cs \<Rightarrow>
          if c = x then
            (case cs of
               [] \<Rightarrow> [(Suc i, cs, k)]
             | d # ds \<Rightarrow> if d = x then [(Suc (Suc i), ds, k), (Suc i, cs, k)] else [(Suc i, cs, k)])
          else [])"
  by (simp add: rep12_def lit_def split: list.splits)

lemma takeWhile_drop_head:
  assumes "n < length (takeWhile P t)"
  shows "\<exists>d ds. drop n t = d # ds \<and> P d"
proof -
  from assms have lt: "n < length t"
    using length_takeWhile_le [of P t] by simp
  have "takeWhile P t ! n \<in> set (takeWhile P t)" using assms by simp
  then have "P (takeWhile P t ! n)" by (rule set_takeWhileD [THEN conjunct2])
  with assms have "P (t ! n)" by (simp add: takeWhile_nth)
  with lt show ?thesis by (metis Cons_nth_drop_Suc)
qed

lemma concat_map_upt_last:
  assumes "\<And>n. n < m \<Longrightarrow> f n = []"
  shows "concat (map f [0..<Suc m]) = f m"
proof -
  have "concat (map f [0..<m]) = []" using assms by simp
  then show ?thesis by simp
qed

lemma rmatch_lazy_until:
  "rmatch (RSeq (RStar False (RChar (\<lambda>c. c \<noteq> x))) (rep12 (lit x))) (j, t, k) =
     rmatch (rep12 (lit x)) (j + length (takeWhile (\<lambda>c. c \<noteq> x) t), dropWhile (\<lambda>c. c \<noteq> x) t, k)"
proof -
  let ?P = "\<lambda>c. c \<noteq> x"
  let ?L = "length (takeWhile ?P t)"
  let ?f = "\<lambda>n. rmatch (rep12 (lit x)) (j + n, drop n t, k)"
  have "\<And>n. n < ?L \<Longrightarrow> ?f n = []"
  proof -
    fix n assume "n < ?L"
    from takeWhile_drop_head [OF this] obtain d ds where "drop n t = d # ds" "d \<noteq> x" by blast
    then show "?f n = []" by (simp add: rmatch_rep12_lit)
  qed
  then have "concat (map ?f [0..<Suc ?L]) = ?f ?L" by (rule concat_map_upt_last)
  then show ?thesis
    by (simp add: rmatch_star_class map_concat comp_def dropWhile_eq_drop del: upt_Suc)
qed

lemma rmatch_close_head:
  assumes "x \<in> set t"
  shows "\<exists>j' ms. rmatch (rep12 (lit x)) (j, dropWhile (\<lambda>c. c \<noteq> x) t, k) =
           (j', (case dropWhile (\<lambda>c. c \<noteq> x) t of [] \<Rightarrow> []
                 | a # r' \<Rightarrow> (case r' of [] \<Rightarrow> [] | y # r'' \<Rightarrow> if y = x then r'' else r')), k) # ms"
proof -
  from assms have "dropWhile (\<lambda>c. c \<noteq> x) t \<noteq> []" by (simp add: dropWhile_eq_Nil_conv)
  then obtain a r' where d: "dropWhile (\<lambda>c. c \<noteq> x) t = a # r'" by (cases "dropWhile (\<lambda>c. c \<noteq> x) t") auto
  then have "a = x" using hd_dropWhile [of "\<lambda>c. c \<noteq> x" t] by auto
  with d show ?thesis by (auto simp: rmatch_rep12_lit split: list.splits)
qed

lemma rmatch_seq_rep12:
  "rmatch (RSeq (rep12 (lit a)) b) st = concat (map (rmatch b) (rmatch (rep12 (lit a)) st))"
  by simp

lemma rmatch_mustacheRe_none:
  assumes "c \<noteq> 0x7B \<or> 0x7D \<notin> set cs"
  shows "rmatch mustacheRe (i, c # cs, k) = []"
proof (cases "c = 0x7B")
  case False
  then show ?thesis by (simp add: mustacheRe_def rmatch_rep12_lit)
next
  case True
  with assms have no: "0x7D \<notin> set cs" by simp
  let ?X = "RSeq (RStar False (RChar (\<lambda>c. c \<noteq> 0x7D))) (rep12 (lit 0x7D))"
  have X: "\<And>j t. 0x7D \<notin> set t \<Longrightarrow> rmatch ?X (j, t, k) = []"
  proof -
    fix j and t :: jsstring assume "0x7D \<notin> set t"
    then have "dropWhile (\<lambda>c. c \<noteq> 0x7D) t = []" by (auto simp: dropWhile_eq_Nil_conv)
    then show "rmatch ?X (j, t, k) = []"
      by (simp only: rmatch_lazy_until) (simp add: rmatch_rep12_lit)
  qed
  show ?thesis
  proof (cases cs)
    case Nil
    with True show ?thesis
      by (simp add: X mustacheRe_def rmatch_seq_rep12 rmatch_rep12_lit del: rmatch.simps)
  next
    case (Cons d ds)
    with no have "0x7D \<notin> set ds" by simp
    with True Cons no show ?thesis
      by (simp add: X mustacheRe_def rmatch_seq_rep12 rmatch_rep12_lit del: rmatch.simps)
  qed
qed

lemma rmatch_mustacheRe_head:
  assumes "c = 0x7B" and "0x7D \<in> set cs"
  shows "\<exists>j ms. rmatch mustacheRe (i, c # cs, k) =
           (j, afterClose (dropWhile (\<lambda>x. x \<noteq> 0x7D) cs), k) # ms"
proof -
  let ?X = "RSeq (RStar False (RChar (\<lambda>c. c \<noteq> 0x7D))) (rep12 (lit 0x7D))"
  have X: "\<And>j t. 0x7D \<in> set t \<Longrightarrow>
     \<exists>j' ms. rmatch ?X (j, t, k) = (j', afterClose (dropWhile (\<lambda>x. x \<noteq> 0x7D) t), k) # ms"
    using rmatch_close_head [of "0x7D"]
    by (simp only: rmatch_lazy_until afterClose_def)
  show ?thesis
  proof (cases cs)
    case Nil
    with assms show ?thesis by simp
  next
    case (Cons d ds)
    show ?thesis
    proof (cases "d = 0x7B")
      case True
      with assms Cons have "0x7D \<in> set ds" by auto
      from X [OF this, of "Suc (Suc i)"] obtain j' ms where
        "rmatch ?X (Suc (Suc i), ds, k) = (j', afterClose (dropWhile (\<lambda>x. x \<noteq> 0x7D) ds), k) # ms"
        by blast
      with True assms Cons show ?thesis
        by (simp add: mustacheRe_def rmatch_seq_rep12 rmatch_rep12_lit del: rmatch.simps)
    next
      case False
      from X [OF assms(2), of "Suc i"] obtain j' ms where
        "rmatch ?X (Suc i, cs, k) = (j', afterClose (dropWhile (\<lambda>x. x \<noteq> 0x7D) cs), k) # ms"
        by blast
      with False assms Cons show ?thesis
        by (simp add: mustacheRe_def rmatch_seq_rep12 rmatch_rep12_lit del: rmatch.simps)
    qed
  qed
qed

lemma afterClose_shorter:
  "length (afterClose (dropWhile P cs)) < Suc (length cs)"
proof -
  have "length (afterClose (dropWhile P cs)) \<le> length (dropWhile P cs)"
    by (simp add: afterClose_def split: list.splits)
  also have "\<dots> \<le> length cs" by (rule length_dropWhile_le)
  finally show ?thesis by simp
qed

lemma replaceAll_mustaches: "replaceAll_from mustacheRe (\<lambda>_. []) i r = removeMustaches r"
proof (induction r arbitrary: i rule: removeMustaches.induct)
  case 1
  show ?case by (simp add: mustacheRe_def rmatch_rep12_lit)
next
  case (2 c cs)
  show ?case
  proof (cases "c = 0x7B \<and> 0x7D \<in> set cs")
    case True
    from rmatch_mustacheRe_head [of c cs i Map.empty] True obtain j ms where
      m: "rmatch mustacheRe (i, c # cs, Map.empty) =
            (j, afterClose (dropWhile (\<lambda>x. x \<noteq> 0x7D) cs), Map.empty) # ms" by blast
    from replaceAll_from_match [OF m afterClose_shorter] 2(1) [OF True] True
    show ?thesis by simp
  next
    case False
    then have "rmatch mustacheRe (i, c # cs, Map.empty) = []"
      by (intro rmatch_mustacheRe_none) simp
    from replaceAll_from_nomatch [OF this] 2(2) [OF False] False show ?thesis by auto
  qed
qed

lemma hws_not_nl: "hws d \<Longrightarrow> \<not> nl d"
  by (auto simp: hws_def nl_def)

lemma dropWhile_weaker:
  assumes "\<And>c. P c \<Longrightarrow> Q c"
  shows "dropWhile Q (dropWhile P x) = dropWhile Q x"
  using assms by (induction x) auto

lemma rmatch_plus_class:
  "rmatch (plusR True (RChar P)) (j, t, k) =
     (case t of
        [] \<Rightarrow> []
      | d # t' \<Rightarrow>
          if P d then rev (map (\<lambda>n. (Suc j + n, drop n t', k)) [0..<Suc (length (takeWhile P t'))])
          else [])"
  by (cases t) (simp_all add: plusR_def rmatch_star_class del: upt_Suc)

lemma rmatch_star_class_head:
  "\<exists>j' ms. rmatch (RStar True (RChar P)) (j, t, k) = (j', dropWhile P t, k) # ms"
  by (simp add: rmatch_star_class rev_upt_head dropWhile_eq_drop del: upt_Suc)

lemma concat_map_head:
  assumes "xs = x # xs'" and "f x = y # ys"
  shows "\<exists>ms. concat (map f xs) = y # ms"
  using assms by simp

lemma rmatch_seq_gen:
  "rmatch (RSeq a b) st = concat (map (rmatch b) (rmatch a st))"
  by simp

lemma rmatch_nl_tail_none:
  assumes "t = [] \<or> \<not> nl (hd t)"
  shows "rmatch (RSeq (plusR True (RChar nl)) (RStar True (RChar hws))) (j, t, k) = []"
  using assms by (subst rmatch_seq_gen, cases t) (simp_all add: rmatch_plus_class del: rmatch.simps)

lemma rmatch_nl_tail_head:
  assumes "t = d # t'" and "nl d"
  shows "\<exists>j' ms. rmatch (RSeq (plusR True (RChar nl)) (RStar True (RChar hws))) (j, t, k) =
           (j', dropWhile hws (dropWhile nl t), k) # ms"
proof -
  let ?L = "length (takeWhile nl t')"
  have 1: "rmatch (plusR True (RChar nl)) (j, t, k) =
      (Suc j + ?L, dropWhile nl t', k) # rev (map (\<lambda>n. (Suc j + n, drop n t', k)) [0..<?L])"
    using assms by (simp add: rmatch_plus_class rev_upt_head dropWhile_eq_drop del: upt_Suc)
  from rmatch_star_class_head [of hws "Suc j + ?L" "dropWhile nl t'" k] obtain j' ms where
    2: "rmatch (RStar True (RChar hws)) (Suc j + ?L, dropWhile nl t', k) =
          (j', dropWhile hws (dropWhile nl t'), k) # ms" by blast
  from concat_map_head [where f = "rmatch (RStar True (RChar hws))", OF 1 2] obtain ms' where
    "concat (map (rmatch (RStar True (RChar hws))) (rmatch (plusR True (RChar nl)) (j, t, k)))
       = (j', dropWhile hws (dropWhile nl t'), k) # ms'" by blast
  with assms show ?thesis by (subst rmatch_seq_gen) (simp del: rmatch.simps)
qed

lemma blankStart_Cons:
  "blankStart (c # cs) = (if hws c then blankStart cs else nl c)"
  by (simp add: blankStart_def)

lemma rmatch_blank_body_none:
  assumes "\<not> blankStart r"
  shows "rmatch (RSeq (RStar True (RChar hws))
            (RSeq (plusR True (RChar nl)) (RStar True (RChar hws)))) (i, r, k) = []"
proof -
  let ?T = "RSeq (plusR True (RChar nl)) (RStar True (RChar hws))"
  let ?L = "length (takeWhile hws r)"
  have each: "\<And>n. n \<le> ?L \<Longrightarrow> rmatch ?T (i + n, drop n r, k) = []"
  proof -
    fix n assume n: "n \<le> ?L"
    show "rmatch ?T (i + n, drop n r, k) = []"
    proof (cases "n < ?L")
      case True
      from takeWhile_drop_head [OF True] obtain d ds where "drop n r = d # ds" "hws d" by blast
      then show ?thesis using hws_not_nl by (intro rmatch_nl_tail_none) simp
    next
      case False
      with n have "drop n r = dropWhile hws r" by (simp add: dropWhile_eq_drop)
      moreover from assms have "dropWhile hws r = [] \<or> \<not> nl (hd (dropWhile hws r))"
        by (auto simp: blankStart_def split: list.splits)
      ultimately show ?thesis by (intro rmatch_nl_tail_none) simp
    qed
  qed
  have "concat (map (rmatch ?T) (rev (map (\<lambda>n. (i + n, drop n r, k)) [0..<Suc ?L]))) = []"
    using each by (auto simp del: upt_Suc rmatch.simps)
  then show ?thesis
    by (subst rmatch_seq_gen) (simp add: rmatch_star_class del: upt_Suc rmatch.simps)
qed

lemma rmatch_blank_body_head:
  assumes "blankStart r"
  shows "\<exists>j' ms. rmatch (RSeq (RStar True (RChar hws))
            (RSeq (plusR True (RChar nl)) (RStar True (RChar hws)))) (i, r, k) =
           (j', dropWhile hws (dropWhile nl (dropWhile hws r)), k) # ms"
proof -
  let ?T = "RSeq (plusR True (RChar nl)) (RStar True (RChar hws))"
  from assms obtain d t' where d: "dropWhile hws r = d # t'" "nl d"
    by (auto simp: blankStart_def split: list.splits)
  from rmatch_star_class_head [of hws i r k] obtain j1 ms1 where
    1: "rmatch (RStar True (RChar hws)) (i, r, k) = (j1, dropWhile hws r, k) # ms1" by blast
  from rmatch_nl_tail_head [OF d, of j1 k] obtain j' ms where
    2: "rmatch ?T (j1, dropWhile hws r, k) = (j', dropWhile hws (dropWhile nl (dropWhile hws r)), k) # ms"
    by blast
  from concat_map_head [where f = "rmatch ?T", OF 1 2] show ?thesis
    by (subst rmatch_seq_gen) blast
qed

lemma blankStart_ws: "blankStart (c # cs) \<Longrightarrow> ws c"
  by (auto simp: blankStart_Cons ws_def split: if_splits)

lemma dropWhile_ws_afterBody:
  "dropWhile ws (dropWhile hws (dropWhile nl (dropWhile hws r))) = dropWhile ws r"
proof -
  have h: "\<And>c. hws c \<Longrightarrow> ws c" and n: "\<And>c. nl c \<Longrightarrow> ws c" by (simp_all add: ws_def)
  show ?thesis
    by (simp add: dropWhile_weaker [of hws ws, OF h] dropWhile_weaker [of nl ws, OF n])
qed

lemma head_dropWhile: "dropWhile P r = [] \<or> \<not> P (hd (dropWhile P r))"
  using hd_dropWhile [of P r] by blast

lemma rmatch_blank_star_head:
  assumes "r = [] \<or> \<not> hws (hd r)"
  shows "\<exists>j' ms. rmatch (RStar True (RSeq (RStar True (RChar hws))
            (RSeq (plusR True (RChar nl)) (RStar True (RChar hws))))) (j, r, k) =
           (j', dropWhile ws r, k) # ms"
  using assms
proof (induction r arbitrary: j rule: length_induct)
  case (1 r)
  let ?B = "RSeq (RStar True (RChar hws)) (RSeq (plusR True (RChar nl)) (RStar True (RChar hws)))"
  let ?G = "\<lambda>(j1, r1, k1). if length r1 < length r then rmatch (RStar True ?B) (j1, r1, k1) else []"
  have unfold: "rmatch (RStar True ?B) (j, r, k) = concat (map ?G (rmatch ?B (j, r, k))) @ [(j, r, k)]"
    by (subst rmatch.simps(6)) (simp del: rmatch.simps)
  have nohws: "dropWhile hws r = r" using 1(2) by (cases r) auto
  show ?case
  proof (cases "blankStart r")
    case False
    with nohws have "r = [] \<or> \<not> ws (hd r)"
      using 1(2) by (cases r) (auto simp: blankStart_Cons ws_def)
    then have "dropWhile ws r = r" by (cases r) auto
    with unfold rmatch_blank_body_none [OF False, of j k] show ?thesis
      by (simp del: rmatch.simps)
  next
    case True
    from rmatch_blank_body_head [OF True, of j k] obtain j1 ms where
      b: "rmatch ?B (j, r, k) = (j1, dropWhile hws (dropWhile nl (dropWhile hws r)), k) # ms"
      by blast
    let ?r1 = "dropWhile hws (dropWhile nl (dropWhile hws r))"
    from True nohws obtain d t where r: "r = d # t" and d: "nl d"
      by (cases r) (auto simp: blankStart_def)
    have "length ?r1 \<le> length (dropWhile nl r)" using nohws by (simp add: length_dropWhile_le)
    also have "\<dots> = length (dropWhile nl t)" using r d by simp
    also have "\<dots> \<le> length t" by (rule length_dropWhile_le)
    finally have lt: "length ?r1 < length r" using r by simp
    have hd1: "?r1 = [] \<or> \<not> hws (hd ?r1)" by (rule head_dropWhile)
    from 1(1) lt hd1 obtain j' ms' where
      s: "rmatch (RStar True ?B) (j1, ?r1, k) = (j', dropWhile ws ?r1, k) # ms'" by blast
    have "concat (map ?G (rmatch ?B (j, r, k))) = ((j', dropWhile ws ?r1, k) # ms') @ concat (map ?G ms)"
      using b s lt by (simp del: rmatch.simps)
    with unfold show ?thesis by (simp add: dropWhile_ws_afterBody del: rmatch.simps)
  qed
qed

lemma rmatch_blankLinesRe_none:
  "\<not> blankStart r \<Longrightarrow> rmatch blankLinesRe (i, r, k) = []"
  unfolding blankLinesRe_def plusR_def [of True "RSeq _ _"]
  by (subst rmatch_seq_gen) (simp add: rmatch_blank_body_none del: rmatch.simps)

lemma rmatch_blankLinesRe_head:
  assumes "blankStart r"
  shows "\<exists>j' ms. rmatch blankLinesRe (i, r, k) = (j', dropWhile ws r, k) # ms"
proof -
  let ?B = "RSeq (RStar True (RChar hws)) (RSeq (plusR True (RChar nl)) (RStar True (RChar hws)))"
  let ?r1 = "dropWhile hws (dropWhile nl (dropWhile hws r))"
  from rmatch_blank_body_head [OF assms, of i k] obtain j1 ms where
    b: "rmatch ?B (i, r, k) = (j1, ?r1, k) # ms" by blast
  have "?r1 = [] \<or> \<not> hws (hd ?r1)" by (rule head_dropWhile)
  from rmatch_blank_star_head [OF this, of j1 k] obtain j' ms' where
    s: "rmatch (RStar True ?B) (j1, ?r1, k) = (j', dropWhile ws r, k) # ms'"
    by (auto simp: dropWhile_ws_afterBody simp del: rmatch.simps)
  from concat_map_head [where f = "rmatch (RStar True ?B)", OF b s]
  show ?thesis
    unfolding blankLinesRe_def plusR_def [of True "RSeq _ _"]
    by (subst rmatch_seq_gen) blast
qed

lemma replaceAll_blankLines:
  "replaceAll_from blankLinesRe (\<lambda>_. [0x0A]) i r = collapseBlankLines r"
proof (induction r arbitrary: i rule: collapseBlankLines.induct)
  case 1
  have "\<not> blankStart []" by (simp add: blankStart_def)
  then show ?case by (simp add: rmatch_blankLinesRe_none)
next
  case (2 c cs)
  show ?case
  proof (cases "blankStart (c # cs)")
    case True
    then have "dropWhile ws (c # cs) = dropWhile ws cs" using blankStart_ws by simp
    with rmatch_blankLinesRe_head [OF True, of i Map.empty] obtain j ms where
      m: "rmatch blankLinesRe (i, c # cs, Map.empty) = (j, dropWhile ws cs, Map.empty) # ms"
      by auto
    have "length (dropWhile ws cs) < Suc (length cs)"
      by (simp add: length_dropWhile_le less_Suc_eq_le)
    from replaceAll_from_match [OF m this] 2(1) [OF True] True show ?thesis by simp
  next
    case False
    then have "rmatch blankLinesRe (i, c # cs, Map.empty) = []"
      by (rule rmatch_blankLinesRe_none)
    from replaceAll_from_nomatch [OF this] 2(2) [OF False] False show ?thesis by simp
  qed
qed

lemma simplify_direct:
  "simplify x = collapseSpaces (collapseBlankLines (removeMustaches x))"
  by (simp add: simplify_def replaceAll_def replaceAll_spaces replaceAll_blankLines
        replaceAll_mustaches)

subsection \<open>removeMustaches\<close>

lemma set_afterClose: "set (afterClose r) \<subseteq> set r"
  by (auto simp: afterClose_def split: list.splits if_splits)

lemma set_removeMustaches: "set (removeMustaches x) \<subseteq> set x"
proof (induction x rule: removeMustaches.induct)
  case 1
  show ?case by simp
next
  case (2 c cs)
  show ?case
  proof (cases "c = 0x7B \<and> 0x7D \<in> set cs")
    case True
    have "set (afterClose (dropWhile (\<lambda>x. x \<noteq> 0x7D) cs)) \<subseteq> set cs"
      using set_afterClose set_dropWhileD by fastforce
    with 2(1) [OF True] True show ?thesis by auto
  next
    case False
    with 2(2) [OF False] show ?thesis by auto
  qed
qed

lemma braceFree_removeMustaches: "braceFree (removeMustaches x)"
proof (induction x rule: removeMustaches.induct)
  case 1
  show ?case by simp
next
  case (2 c cs)
  show ?case
  proof (cases "c = 0x7B \<and> 0x7D \<in> set cs")
    case True
    with 2(1) [OF True] show ?thesis by simp
  next
    case False
    with 2(2) [OF False] set_removeMustaches [of cs] show ?thesis by auto
  qed
qed

lemma removeMustaches_braceFree: "braceFree y \<Longrightarrow> removeMustaches y = y"
  by (induction y) auto

lemma braceFree_dropWhile: "braceFree y \<Longrightarrow> braceFree (dropWhile P y)"
  by (induction y) auto

section \<open>simplify applied twice\<close>

subsection \<open>collapseBlankLines\<close>

lemma blankFree_tl: "blankFree (c # cs) \<Longrightarrow> blankFree cs"
  by (cases cs) auto

lemma blankFree_dropWhile: "blankFree y \<Longrightarrow> blankFree (dropWhile P y)"
  by (induction y) (auto dest: blankFree_tl)

lemma blankFree_head: "blankFree (c # cs) \<Longrightarrow> c \<noteq> 0x0D"
  by (cases cs) auto

lemma blankFree_no_start:
  "blankFree (c # cs) \<Longrightarrow> hws c \<Longrightarrow> \<not> blankStart (c # cs)"
proof (induction cs arbitrary: c)
  case Nil
  then show ?case by (simp add: blankStart_def)
next
  case (Cons b cs)
  from Cons.prems have nb: "\<not> nl b" and bf: "blankFree (b # cs)" by auto
  show ?case
  proof (cases "hws b")
    case True
    from Cons.IH [OF bf True] Cons.prems(2) show ?thesis by (simp add: blankStart_Cons)
  next
    case False
    with nb Cons.prems(2) show ?thesis by (simp add: blankStart_Cons)
  qed
qed

lemma collapseBlankLines_blankFree: "blankFree y \<Longrightarrow> collapseBlankLines y = y"
proof (induction y)
  case Nil
  show ?case by simp
next
  case (Cons c cs)
  from Cons have ih: "collapseBlankLines cs = cs" by (auto dest: blankFree_tl)
  show ?case
  proof (cases "blankStart (c # cs)")
    case False
    with ih show ?thesis by simp
  next
    case True
    with blankFree_no_start [OF Cons.prems] have nh: "\<not> hws c" by blast
    with True have n: "nl c" by (simp add: blankStart_Cons)
    have "dropWhile ws cs = cs"
    proof (cases cs)
      case Nil
      then show ?thesis by simp
    next
      case (Cons b bs)
      with Cons.prems n have "\<not> ws b" by auto
      with Cons show ?thesis by simp
    qed
    moreover from n blankFree_head [OF Cons.prems] have "c = 0x0A" by (simp add: nl_def)
    ultimately show ?thesis using True ih by simp
  qed
qed

lemma not_blankStart_collapse:
  "\<not> blankStart cs \<Longrightarrow> \<not> blankStart (collapseBlankLines cs)"
proof (induction cs)
  case Nil
  then show ?case by simp
next
  case (Cons c cs)
  then show ?case by (auto simp: blankStart_Cons split: if_splits)
qed

lemma collapseBlankLines_head:
  "\<not> ws d \<Longrightarrow> collapseBlankLines (d # r) = d # collapseBlankLines r"
  by (simp add: blankStart_Cons ws_def)

lemma collapseBlankLines_keeps_head:
  "r = [] \<or> \<not> ws (hd r) \<Longrightarrow>
   collapseBlankLines r = [] \<or> \<not> ws (hd (collapseBlankLines r))"
proof (cases r)
  case Nil
  then show ?thesis by simp
next
  case (Cons d r')
  assume "r = [] \<or> \<not> ws (hd r)"
  with Cons have "\<not> ws d" by simp
  then have "collapseBlankLines (d # r') = d # collapseBlankLines r'"
    by (rule collapseBlankLines_head)
  with Cons \<open>\<not> ws d\<close> show ?thesis by simp
qed

lemma blankFree_Cons_iff:
  "blankFree (a # r) =
     (a \<noteq> 0x0D \<and> (r \<noteq> [] \<longrightarrow> \<not> (nl a \<and> ws (hd r)) \<and> \<not> (hws a \<and> nl (hd r))) \<and> blankFree r)"
  by (cases r) auto

lemma blankFree_collapseBlankLines: "blankFree (collapseBlankLines z)"
proof (induction z rule: collapseBlankLines.induct)
  case 1
  show ?case by simp
next
  case (2 c cs)
  show ?case
  proof (cases "blankStart (c # cs)")
    case True
    let ?r = "dropWhile ws cs"
    have "collapseBlankLines ?r = [] \<or> \<not> ws (hd (collapseBlankLines ?r))"
      by (rule collapseBlankLines_keeps_head) (rule head_dropWhile)
    then have hd: "collapseBlankLines ?r \<noteq> [] \<Longrightarrow> \<not> ws (hd (collapseBlankLines ?r))"
      by blast
    have "\<not> hws 0x0A" by (simp add: hws_def)
    with 2(1) [OF True] hd True show ?thesis
      by (simp add: blankFree_Cons_iff)
  next
    case False
    then have nn: "\<not> nl c" by (auto simp: blankStart_Cons split: if_splits dest: hws_not_nl)
    then have c: "c \<noteq> 0x0D" by (auto simp: nl_def)
    have "hws c \<Longrightarrow> collapseBlankLines cs \<noteq> [] \<Longrightarrow> \<not> nl (hd (collapseBlankLines cs))"
    proof -
      assume h: "hws c" and ne: "collapseBlankLines cs \<noteq> []"
      from False h have "\<not> blankStart cs" by (simp add: blankStart_Cons)
      then have "\<not> blankStart (collapseBlankLines cs)" by (rule not_blankStart_collapse)
      with ne show ?thesis
        by (cases "collapseBlankLines cs") (auto simp: blankStart_Cons split: if_splits dest: hws_not_nl)
    qed
    with 2(2) [OF False] False nn c show ?thesis
      by (auto simp: blankFree_Cons_iff)
  qed
qed

subsection \<open>collapseSpaces\<close>

lemma collapseSpaces_keeps_head:
  "r = [] \<or> \<not> hws (hd r) \<Longrightarrow> dropWhile hws (collapseSpaces r) = collapseSpaces r"
  by (cases r) auto

lemma collapseSpaces_dropWhile_head:
  "dropWhile hws (collapseSpaces (dropWhile hws cs)) = collapseSpaces (dropWhile hws cs)"
  by (rule collapseSpaces_keeps_head) (rule head_dropWhile)

lemma collapseSpaces_idem: "collapseSpaces (collapseSpaces w) = collapseSpaces w"
proof (induction w rule: collapseSpaces.induct)
  case 1
  show ?case by simp
next
  case (2 c cs)
  show ?case
  proof (cases "hws c")
    case True
    have "hws 0x20" by (simp add: hws_def)
    with True 2(1) [OF True] show ?thesis
      by (simp add: collapseSpaces_dropWhile_head)
  next
    case False
    with 2(2) [OF False] show ?thesis by simp
  qed
qed

lemma set_collapseSpaces: "set (collapseSpaces w) \<subseteq> insert 0x20 (set w)"
proof (induction w rule: collapseSpaces.induct)
  case 1
  show ?case by simp
next
  case (2 c cs)
  show ?case
  proof (cases "hws c")
    case True
    with 2(1) [OF True] set_dropWhileD [of _ hws cs] show ?thesis by auto
  next
    case False
    with 2(2) [OF False] show ?thesis by auto
  qed
qed

lemma set_collapseBlankLines: "set (collapseBlankLines w) \<subseteq> insert 0x0A (set w)"
proof (induction w rule: collapseBlankLines.induct)
  case 1
  show ?case by simp
next
  case (2 c cs)
  show ?case
  proof (cases "blankStart (c # cs)")
    case True
    with 2(1) [OF True] set_dropWhileD [of _ ws cs] show ?thesis by auto
  next
    case False
    with 2(2) [OF False] show ?thesis by auto
  qed
qed

lemma braceFree_collapseSpaces: "braceFree y \<Longrightarrow> braceFree (collapseSpaces y)"
proof (induction y rule: collapseSpaces.induct)
  case 1
  show ?case by simp
next
  case (2 c cs)
  show ?case
  proof (cases "hws c")
    case True
    from 2(3) have "braceFree (dropWhile hws cs)" by (simp add: braceFree_dropWhile)
    with 2(1) [OF True] True show ?thesis by simp
  next
    case False
    from 2(3) have bf: "braceFree cs" and cl: "c = 0x7B \<longrightarrow> 0x7D \<notin> set cs" by simp_all
    have "c = 0x7B \<longrightarrow> 0x7D \<notin> set (collapseSpaces cs)"
      using cl set_collapseSpaces [of cs] by auto
    with 2(2) [OF False bf] False show ?thesis by simp
  qed
qed

lemma braceFree_collapseBlankLines: "braceFree y \<Longrightarrow> braceFree (collapseBlankLines y)"
proof (induction y rule: collapseBlankLines.induct)
  case 1
  show ?case by simp
next
  case (2 c cs)
  show ?case
  proof (cases "blankStart (c # cs)")
    case True
    from 2(3) have "braceFree (dropWhile ws cs)" by (simp add: braceFree_dropWhile)
    with 2(1) [OF True] True show ?thesis by simp
  next
    case False
    from 2(3) have bf: "braceFree cs" and cl: "c = 0x7B \<longrightarrow> 0x7D \<notin> set cs" by simp_all
    have "c = 0x7B \<longrightarrow> 0x7D \<notin> set (collapseBlankLines cs)"
      using cl set_collapseBlankLines [of cs] by auto
    with 2(2) [OF False bf] False show ?thesis by simp
  qed
qed


lemma blankFree_collapseSpaces: "blankFree y \<Longrightarrow> blankFree (collapseSpaces y)"
proof (induction y rule: collapseSpaces.induct)
  case 1
  show ?case by simp
next
  case (2 c cs)
  from 2(3) have bcs: "blankFree cs" by (rule blankFree_tl)
  show ?case
  proof (cases "hws c")
    case True
    let ?r = "dropWhile hws cs"
    from bcs have "blankFree ?r" by (rule blankFree_dropWhile)
    with 2(1) [OF True] have ih: "blankFree (collapseSpaces ?r)" by simp
    have nonl: "collapseSpaces ?r \<noteq> [] \<Longrightarrow> \<not> nl (hd (collapseSpaces ?r))"
    proof (cases ?r)
      case Nil
      assume "collapseSpaces ?r \<noteq> []"
      with Nil show ?thesis by (simp only: collapseSpaces.simps) simp
    next
      case (Cons d r')
      then have nh: "\<not> hws d" using hd_dropWhile [of hws cs] by auto
      from blankFree_no_start [OF 2(3) True] True Cons have "\<not> nl d"
        by (simp add: blankStart_def)
      with Cons nh show ?thesis by (simp only: collapseSpaces.simps) simp
    qed
    have "\<not> nl 0x20" by (simp add: nl_def)
    with True ih nonl show ?thesis by (simp add: blankFree_Cons_iff)
  next
    case False
    from 2(2) [OF False bcs] have ih: "blankFree (collapseSpaces cs)" .
    from 2(3) have c: "c \<noteq> 0x0D" by (rule blankFree_head)
    have pair: "collapseSpaces cs \<noteq> [] \<Longrightarrow> \<not> (nl c \<and> ws (hd (collapseSpaces cs)))"
    proof (cases cs)
      case Nil
      assume "collapseSpaces cs \<noteq> []"
      with Nil show ?thesis by simp
    next
      case (Cons b bs)
      show ?thesis
      proof
        assume "nl c \<and> ws (hd (collapseSpaces cs))"
        then have n: "nl c" and w: "ws (hd (collapseSpaces cs))" by simp_all
        from 2(3) Cons n have nb: "\<not> ws b" by auto
        then have "\<not> hws b" by (simp add: ws_def)
        with Cons have "hd (collapseSpaces cs) = b" by simp
        with w nb show False by simp
      qed
    qed
    from False ih c pair show ?thesis by (simp add: blankFree_Cons_iff)
  qed
qed

lemma simplify_blankFree: "blankFree (simplify x)"
  by (simp add: simplify_direct blankFree_collapseSpaces blankFree_collapseBlankLines)

lemma simplify_braceFree: "braceFree (simplify x)"
  by (simp add: simplify_direct braceFree_collapseSpaces braceFree_collapseBlankLines
        braceFree_removeMustaches)

lemma search_mustacheRe: "(search mustacheRe i y = None) = braceFree y"
proof (induction y arbitrary: i)
  case Nil
  show ?case by (simp add: mustacheRe_def rmatch_rep12_lit)
next
  case (Cons c cs)
  show ?case
  proof (cases "c = 0x7B \<and> 0x7D \<in> set cs")
    case True
    from rmatch_mustacheRe_head [of c cs i Map.empty] True obtain j ms where
      "rmatch mustacheRe (i, c # cs, Map.empty) =
         (j, afterClose (dropWhile (\<lambda>x. x \<noteq> 0x7D) cs), Map.empty) # ms" by blast
    with True show ?thesis by simp
  next
    case False
    then have "rmatch mustacheRe (i, c # cs, Map.empty) = []"
      by (intro rmatch_mustacheRe_none) simp
    with False Cons [of "Suc i"] show ?thesis by auto
  qed
qed

text \<open>
  C9. \<open>simplify\<close> is idempotent. Its result never holds a mustache (the first replacement
  leaves no opening brace with a closing brace after it, and the two others touch white
  space only), so the condition of the specification holds for every input, and a second
  application changes nothing.
\<close>

theorem simplify_idempotent:
  "\<not> test mustacheRe (simplify x) \<and> simplify (simplify x) = simplify x"
proof
  show "\<not> test mustacheRe (simplify x)"
    by (simp add: test_def search_mustacheRe simplify_braceFree)
next
  let ?y = "simplify x"
  have "simplify ?y = collapseSpaces (collapseBlankLines (removeMustaches ?y))"
    by (rule simplify_direct)
  also have "removeMustaches ?y = ?y"
    by (rule removeMustaches_braceFree) (rule simplify_braceFree)
  also have "collapseBlankLines ?y = ?y"
    by (rule collapseBlankLines_blankFree) (rule simplify_blankFree)
  also have "collapseSpaces ?y = ?y"
    by (simp add: simplify_direct collapseSpaces_idem)
  finally show "simplify ?y = ?y" .
qed

section \<open>What nsToTitle and the title expression compute\<close>

lemma mapE_capitalize:
  "mapE (capitalize U) segs =
     (if [] \<in> set segs then Inl TypeError else Inr (map (titleCase U) segs))"
  by (induction segs) (auto simp: capitalize_def titleCase_def split: list.splits)

lemma replaceAll_class:
  "replaceAll_from (RChar P) (\<lambda>_. [x]) i r = map (\<lambda>c. if P c then x else c) r"
  by (induction r arbitrary: i) simp_all

lemma nsToTitle_eq:
  "nsToTitle U ns =
     (if [] \<in> set (split 0x2F (replaceStr (js ''admin/'') [] ns)) then Inl TypeError
      else Inr (map (\<lambda>c. if titleChar c then c else 0x20)
             (join (js '' > '') (map (titleCase U) (split 0x2F (replaceStr (js ''admin/'') [] ns))))))"
  by (simp add: nsToTitle_def mapE_capitalize nonTitleRe_def replaceAll_def replaceAll_class)

lemma split_nonempty: "split d r \<noteq> []"
  by (induction r) (auto split: list.splits)

lemma tl_split_Cons:
  "tl (split d (c # cs)) = (if c = d then split d cs else tl (split d cs))"
  using split_nonempty [of d cs] by (cases "split d cs") auto

lemma in_tl: "x \<in> set (tl xs) \<Longrightarrow> x \<in> set xs"
  by (cases xs) auto

lemma split_last_empty_tl: "[] \<in> set (tl (split d (r @ [d])))"
proof (induction r)
  case Nil
  show ?case by simp
next
  case (Cons c r)
  then show ?case by (auto simp: tl_split_Cons dest: in_tl simp del: split.simps)
qed

lemma split_double_tl: "[] \<in> set (tl (split d (a @ [d, d] @ b)))"
proof (induction a)
  case Nil
  show ?case by simp
next
  case (Cons c a)
  have "(c # a) @ [d, d] @ b = c # (a @ [d, d] @ b)" by simp
  with Cons show ?case by (auto simp: tl_split_Cons dest: in_tl simp del: split.simps)
qed

lemma split_last_empty: "[] \<in> set (split d (r @ [d]))"
  using split_last_empty_tl by (rule in_tl)

lemma split_double: "[] \<in> set (split d (a @ [d, d] @ b))"
  using split_double_tl by (rule in_tl)

lemma replaceStr_prefix: "startsWith s p \<Longrightarrow> replaceStr p [] s = drop (length p) s"
  by (cases s) (auto simp: startsWith_def)

lemma titleChar_not_newline: "titleChar c \<Longrightarrow> c \<noteq> 0x0A"
  by (auto simp: titleChar_def)

lemma rmatch_lits: "rmatch (lits p) (i, p @ r, k) = [(i + length p, r, k)]"
  by (induction p arbitrary: i) (simp_all add: lit_def)

lemma rmatch_lazy_plus_class:
  "rmatch (plusR False (RChar P)) (j, d # t', k) =
     (if P d then map (\<lambda>n. (Suc j + n, drop n t', k)) [0..<Suc (length (takeWhile P t'))] else [])"
  by (simp add: plusR_def rmatch_star_class del: upt_Suc)

lemma rmatch_group_lazy_plus:
  "P d \<Longrightarrow> rmatch (RGroup g (plusR False (RChar P))) (j, d # t', k) =
     map (\<lambda>n. (Suc j + n, drop n t', k(g \<mapsto> take (Suc n) (d # t'))))
       [0..<Suc (length (takeWhile P t'))]"
  by (simp add: rmatch_lazy_plus_class comp_def del: upt_Suc rmatch.simps(4))

lemma concat_map_upt_first:
  assumes none: "\<And>n. n < n0 \<Longrightarrow> f n = []" and le: "n0 \<le> m" and hit: "f n0 = y # ys"
  shows "\<exists>ms. concat (map f [0..<Suc m]) = y # ms"
proof -
  have "[0..<Suc m] = [0..<n0] @ [n0..<Suc m]"
    using le upt_add_eq_append [of 0 n0 "Suc m - n0"] by simp
  moreover have "[n0..<Suc m] = n0 # [Suc n0..<Suc m]"
    using le by (simp add: upt_conv_Cons del: upt_Suc)
  ultimately have split: "[0..<Suc m] = [0..<n0] @ n0 # [Suc n0..<Suc m]" by (simp only:)
  have empty: "concat (map f [0..<n0]) = []" using none by simp
  have "concat (map f [0..<Suc m]) = concat (map f [0..<n0]) @ f n0 @ concat (map f [Suc n0..<Suc m])"
    by (subst split) (simp del: upt_Suc)
  then have "concat (map f [0..<Suc m]) = y # (ys @ concat (map f [Suc n0..<Suc m]))"
    by (simp only: empty hit append_Nil append_Cons)
  then show ?thesis by (rule exI)
qed

lemma takeWhile_all: "\<forall>c \<in> set t. P c \<Longrightarrow> takeWhile P t = t"
  by (induction t) auto

lemma rmatch_page_end:
  assumes ne: "page \<noteq> []" and dots: "\<forall>c \<in> set page. dot c"
  shows "rmatch (RSeq (RGroup 2 (plusR False (RChar dot))) REol) (j, page, k) =
           [(j + length page, [], k(2 \<mapsto> page))]"
proof -
  from ne obtain d t' where p: "page = d # t'" by (cases page) auto
  with dots have d: "dot d" and all: "\<forall>c \<in> set t'. dot c" by simp_all
  have t: "length (takeWhile dot t') = length t'"
    by (simp only: takeWhile_all [OF all])
  let ?g = "\<lambda>n. (Suc j + n, drop n t', k(2 \<mapsto> take (Suc n) (d # t')))"
  let ?f = "\<lambda>n. rmatch REol (?g n)"
  have "\<And>n. n < length t' \<Longrightarrow> ?f n = []" by simp
  then have "concat (map ?f [0..<Suc (length t')]) = ?f (length t')"
    by (rule concat_map_upt_last)
  then have "concat (map (rmatch REol) (map ?g [0..<Suc (length t')])) = [?g (length t')]"
    by (simp add: comp_def del: upt_Suc)
  with p d show ?thesis
    by (subst rmatch_seq_gen) (simp add: rmatch_group_lazy_plus t comp_def del: upt_Suc rmatch.simps)
qed

lemma rmatch_slash_page:
  "rmatch (RSeq (lit 0x2F) b) (j, r, k) =
     (case r of [] \<Rightarrow> [] | c # cs \<Rightarrow> if c = 0x2F then rmatch b (Suc j, cs, k) else [])"
  by (cases r) (simp_all add: lit_def)

lemma rmatch_section_page:
  assumes sne: "sect \<noteq> []" and pne: "page \<noteq> []"
    and noslash: "0x2F \<notin> set sect"
    and sdots: "\<forall>c \<in> set sect. dot c" and pdots: "\<forall>c \<in> set page. dot c"
  shows "\<exists>j' ms. rmatch (RSeq (RGroup 1 (plusR False (RChar dot)))
             (RSeq (lit 0x2F) (RSeq (RGroup 2 (plusR False (RChar dot))) REol)))
           (j, sect @ 0x2F # page, k) = (j', [], k(1 \<mapsto> sect, 2 \<mapsto> page)) # ms"
proof -
  let ?T2 = "RSeq (RGroup 2 (plusR False (RChar dot))) REol"
  let ?T1 = "RSeq (lit 0x2F) ?T2"
  from sne obtain d s' where s: "sect = d # s'" by (cases sect) auto
  let ?rest = "s' @ 0x2F # page"
  let ?L = "length (takeWhile dot ?rest)"
  let ?g = "\<lambda>n. (Suc j + n, drop n ?rest, k(1 \<mapsto> take (Suc n) (d # ?rest)))"
  let ?f = "\<lambda>n. rmatch ?T1 (?g n)"
  from s sdots have d: "dot d" and s'dots: "\<forall>c \<in> set s'. dot c" by simp_all
  have slash: "dot 0x2F" by (simp add: dot_def)
  have "takeWhile dot ?rest = s' @ takeWhile dot (0x2F # page)"
    using s'dots by (simp add: takeWhile_append2)
  then have le: "length s' \<le> ?L" by simp
  have none: "\<And>n. n < length s' \<Longrightarrow> ?f n = []"
  proof -
    fix n assume n: "n < length s'"
    then have "n < length ?rest" by simp
    then have "drop n ?rest = ?rest ! n # drop (Suc n) ?rest"
      by (rule Cons_nth_drop_Suc [symmetric])
    moreover have "?rest ! n = s' ! n" using n by (simp add: nth_append)
    ultimately have "drop n ?rest = (s' ! n) # drop (Suc n) ?rest" by (simp only:)
    moreover have "s' ! n \<noteq> 0x2F"
    proof
      assume "s' ! n = 0x2F"
      with nth_mem [OF n] have "0x2F \<in> set s'" by simp
      with s noslash show False by simp
    qed
    ultimately show "?f n = []" by (simp add: rmatch_slash_page del: rmatch.simps)
  qed
  have hit: "?f (length s') =
      [(Suc (Suc j + length s') + length page, [], k(1 \<mapsto> sect, 2 \<mapsto> page))]"
    using s rmatch_page_end [OF pne pdots]
    by (simp add: rmatch_slash_page del: rmatch.simps)
  from concat_map_upt_first [of "length s'" ?f, OF none le hit] obtain ms where
    "concat (map ?f [0..<Suc ?L]) =
       (Suc (Suc j + length s') + length page, [], k(1 \<mapsto> sect, 2 \<mapsto> page)) # ms"
    by blast
  then have "concat (map (rmatch ?T1) (map ?g [0..<Suc ?L])) =
       (Suc (Suc j + length s') + length page, [], k(1 \<mapsto> sect, 2 \<mapsto> page)) # ms"
    by (simp add: comp_def del: upt_Suc rmatch.simps)
  with s d show ?thesis
    by (subst rmatch_seq_gen) (simp add: rmatch_group_lazy_plus del: upt_Suc rmatch.simps)
qed

lemma search_titleRe:
  assumes sne: "sect \<noteq> []" and pne: "page \<noteq> []"
    and noslash: "0x2F \<notin> set sect"
    and sdots: "\<forall>c \<in> set sect. dot c" and pdots: "\<forall>c \<in> set page. dot c"
  shows "\<exists>j. search titleRe 0 (js ''admin/'' @ sect @ 0x2F # page) =
           Some (0, (j, [], [1 \<mapsto> sect, 2 \<mapsto> page]))"
proof -
  let ?M = "RSeq (RGroup 1 (plusR False (RChar dot)))
             (RSeq (lit 0x2F) (RSeq (RGroup 2 (plusR False (RChar dot))) REol))"
  let ?ns = "js ''admin/'' @ sect @ 0x2F # page"
  from rmatch_section_page [OF assms, of "length (js ''admin/'')" Map.empty] obtain j ms where
    m: "rmatch ?M (length (js ''admin/''), sect @ 0x2F # page, Map.empty) =
          (j, [], [1 \<mapsto> sect, 2 \<mapsto> page]) # ms" by blast
  have "rmatch titleRe (0, ?ns, Map.empty) =
      concat (map (rmatch ?M) (rmatch (lits (js ''admin/'')) (0, js ''admin/'' @ (sect @ 0x2F # page), Map.empty)))"
    unfolding titleRe_def by (subst rmatch_seq_gen) simp
  also have "\<dots> = (j, [], [1 \<mapsto> sect, 2 \<mapsto> page]) # ms"
    using m by (simp only: rmatch_lits) simp
  finally have r: "rmatch titleRe (0, ?ns, Map.empty) = (j, [], [1 \<mapsto> sect, 2 \<mapsto> page]) # ms" .
  obtain c cs where ns: "?ns = c # cs" by (simp add: js_def)
  with r have "search titleRe 0 ?ns = Some (0, (j, [], [1 \<mapsto> sect, 2 \<mapsto> page]))"
    by (simp del: rmatch.simps)
  then show ?thesis by blast
qed

lemma titleKey_section_page:
  assumes sne: "sect \<noteq> []" and pne: "page \<noteq> []"
    and noslash: "0x2F \<notin> set sect"
    and sdots: "\<forall>c \<in> set sect. dot c" and pdots: "\<forall>c \<in> set page. dot c"
  shows "titleKey (js ''admin/'' @ sect @ 0x2F # page) =
           js ''[[admin/menu:section-'' @
           (if sect = js ''development'' then js ''advanced'' else sect) @
           js '']] > [[admin/menu:'' @ sect @ js ''/'' @ page @ js '']]''"
proof -
  from search_titleRe [OF assms] obtain j where
    "search titleRe 0 (js ''admin/'' @ sect @ 0x2F # page) =
           Some (0, (j, [], [1 \<mapsto> sect, 2 \<mapsto> page]))" by blast
  then have "titleKey (js ''admin/'' @ sect @ 0x2F # page) =
           js ''[[admin/menu:section-'' @
           (if sect = js ''development'' then js ''advanced'' else sect) @
           js '']]'' @ (js '' > [[admin/menu:'' @ sect @ js ''/'' @ page @ js '']]'')"
    using pne by (simp add: titleKey_def interp_def)
  then show ?thesis by (simp add: js_def)
qed

section \<open>Concrete behaviour\<close>

lemmas re_defs =
  replaceAll_def replace_def test_def dollar1_def plusR_def rep12_def lit_def dot_def
  hws_def nl_def js_def startsWith_def endsWith_def
  titleChar_def toUpperCase1_def capitalize_def interp_def rmatch.simps(6)

lemma list_update_Cons_numeral:
  "(x # xs)[numeral k := y] = x # xs[pred_numeral k := y]"
  by (simp add: numeral_eq_Suc)

lemmas model_defs =
  getDictionary_def initDict_def runBuilds_def startBuild_def resume_def settle_def
  list_update_Cons_numeral getAdminNamespaces_def buildNamespace_def fallback_def
  initFallback_def catchBlock_def sanitize_def emit_def Let_def nsToTitle_def titleKey_def
  titleRe_def nonTitleRe_def simplify_def mustacheRe_def blankLinesRe_def spacesRe_def
  filterDirectories_def tplRe_def subpathRe_def manageRe_def

lemmas demo_defs = demoEnv_def demoTranslator_def state0_def

text \<open>
  C1 (counterexample). On the input \<^verbatim>\<open>'a {{b}} c\n\n  d \t e'\<close> the specification
  expects \<^verbatim>\<open>'a  c\nd e'\<close>, with the two spaces left around the removed mustache. The code
  does not return that string.
\<close>

theorem simplify_example_counterexample:
  "simplify (js ''a {{b}} c'' @ [0x0A, 0x0A] @ js ''  d '' @ [0x09] @ js '' e'')
     \<noteq> js ''a  c'' @ [0x0A] @ js ''d e''"
  by (simp add: simplify_def mustacheRe_def blankLinesRe_def spacesRe_def re_defs)

text \<open>
  C1 (amended). On that input \<open>simplify\<close> returns \<^verbatim>\<open>'a c\nd e'\<close>: the mustache is removed,
  the blank-line run becomes one newline, and every run of spaces and tabs within a line,
  the two spaces left by the mustache included, becomes one space.
\<close>

theorem simplify_example:
  "simplify (js ''a {{b}} c'' @ [0x0A, 0x0A] @ js ''  d '' @ [0x09] @ js '' e'')
     = js ''a c'' @ [0x0A] @ js ''d e''"
  by (simp add: simplify_def mustacheRe_def blankLinesRe_def spacesRe_def re_defs)

text \<open>
  C6. \<open>filterDirectories\<close> keeps, of the five paths of the specification's example, only
  \<^verbatim>\<open>admin/manage/users\<close>, whether \<^verbatim>\<open>path.sep\<close> is \<^verbatim>\<open>/\<close> or a backslash: the
  \<^verbatim>\<open>.js\<close> path, the path under \<^verbatim>\<open>/partials/\<close>, \<^verbatim>\<open>manage/category\<close> and the top-level
  \<^verbatim>\<open>admin/general\<close> are dropped. On the empty list it returns the empty list.
\<close>

theorem filterDirectories_example:
  "filterDirectories 0x2F
     [js ''/x/admin/manage/users.tpl'', js ''/x/admin/manage/users.js'',
      js ''/x/admin/partials/foo.tpl'', js ''/x/admin/manage/category.tpl'',
      js ''/x/admin/general.tpl''] = [js ''admin/manage/users'']
   \<and> filterDirectories 0x5C
     [js ''/x/admin/manage/users.tpl'', js ''/x/admin/manage/users.js'',
      js ''/x/admin/partials/foo.tpl'', js ''/x/admin/manage/category.tpl'',
      js ''/x/admin/general.tpl''] = [js ''admin/manage/users'']
   \<and> filterDirectories sep [] = []"
  by (simp add: filterDirectories_def tplRe_def subpathRe_def manageRe_def re_defs)

subsection \<open>The module run on the small installation\<close>

lemma demo_namespaces:
  "filterDirectories (path_sep demoEnv)
     [js ''/v/admin/manage/users.tpl'', js ''/v/admin/settings/general.tpl'',
      js ''/v/admin/extend/plugins.tpl'', js ''/v/admin/extend/widgets.tpl'']
   = [js ''admin/manage/users'', js ''admin/settings/general'',
      js ''admin/extend/plugins'', js ''admin/extend/widgets'']"
  by (simp add: demoEnv_def filterDirectories_def tplRe_def subpathRe_def manageRe_def re_defs)

text \<open>
  The dictionary of the small installation, built under the schedule \<open>[0, 1, 2, 3]\<close>: once
  the four builds have started, each takes one step, in turn, and then each is run to its
  end.
\<close>

lemma demo_dictionary:
  "fst (getDictionary demoEnv [0, 1, 2, 3] (js ''en-GB'') state0) =
     Inr [\<lparr>namespace = js ''admin/manage/users'',
           translations_str = js ''Users'' @ [0x0A] @ js ''Edit user'' @ [0x0A] @
              js ''[[admin/menu:section-manage]] > [[admin/menu:manage/users]]'',
           title = Some (js ''Manage > Users'')\<rparr>,
          \<lparr>namespace = js ''admin/settings/general'', translations_str = [], title = None\<rparr>,
          \<lparr>namespace = js ''admin/extend/plugins'',
           translations_str = js ''Plugins'' @ [0x0A] @ js ''Find'' @ [0x0A] @ js ''Extend > Plugins'',
           title = Some (js ''Extend > Plugins'')\<rparr>,
          \<lparr>namespace = js ''admin/extend/widgets'', translations_str = [], title = None\<rparr>]"
  by (simp add: model_defs demo_defs re_defs)

lemma demo_trace:
  "trace (snd (getDictionary demoEnv [0, 1, 2, 3] (js ''en-GB'') state0)) =
     [Walk,
      Create (js ''en-GB''), GetTranslation (js ''en-GB'') (js ''admin/manage/users''),
      Create (js ''en-GB''), GetTranslation (js ''en-GB'') (js ''admin/settings/general''),
      Create (js ''en-GB''), GetTranslation (js ''en-GB'') (js ''admin/extend/plugins''),
      Create (js ''en-GB''), GetTranslation (js ''en-GB'') (js ''admin/extend/widgets''),
      Translate (js ''en-GB'') (js ''[[admin/menu:section-manage]] > [[admin/menu:manage/users]]''),
      LogError (ErrorObj 1),
      ReadFile (js ''admin/extend/plugins''),
      ReadFile (js ''admin/extend/widgets''),
      LogError (ErrorObj 2)]"
  by (simp add: model_defs demo_defs re_defs)

section \<open>Titles\<close>

text \<open>
  C10. \<open>nsToTitle\<close> throws a TypeError exactly when the namespace, after the removal of the
  first \<^verbatim>\<open>admin/\<close>, has an empty segment between slashes, and the Fallback Builder then
  rejects with it once the template has been read; otherwise it returns a string. A
  remainder that ends in \<^verbatim>\<open>/\<close> or holds \<^verbatim>\<open>//\<close> has an empty segment.
\<close>

theorem nsToTitle_partial:
  "([] \<in> set (split 0x2F (replaceStr (js ''admin/'') [] ns)) \<longrightarrow>
      nsToTitle (upperTable env) ns = Inl TypeError \<and>
      (\<forall>template. readFile env ns = Inr template \<longrightarrow> fst (initFallback env ns s) = Inl TypeError)) \<and>
   ([] \<notin> set (split 0x2F (replaceStr (js ''admin/'') [] ns)) \<longrightarrow>
      (\<exists>t. nsToTitle (upperTable env) ns = Inr t)) \<and>
   [] \<in> set (split 0x2F (r @ [0x2F])) \<and>
   [] \<in> set (split 0x2F (a @ [0x2F, 0x2F] @ b))"
proof -
  have 1: "[] \<in> set (split 0x2F (r @ [0x2F]))" by (rule split_last_empty)
  have 2: "[] \<in> set (split 0x2F (a @ [0x2F, 0x2F] @ b))" by (rule split_double)
  have 3: "[] \<in> set (split 0x2F (replaceStr (js ''admin/'') [] ns)) \<longrightarrow>
      nsToTitle (upperTable env) ns = Inl TypeError \<and>
      (\<forall>template. readFile env ns = Inr template \<longrightarrow> fst (initFallback env ns s) = Inl TypeError)"
    by (simp add: nsToTitle_eq initFallback_def Let_def del: split.simps)
  have 4: "[] \<notin> set (split 0x2F (replaceStr (js ''admin/'') [] ns)) \<longrightarrow>
      (\<exists>t. nsToTitle (upperTable env) ns = Inr t)"
    by (simp add: nsToTitle_eq del: split.simps)
  from 1 2 3 4 show ?thesis by blast
qed

text \<open>C10 (witness): \<^verbatim>\<open>admin/manage/\<close> throws, \<^verbatim>\<open>admin/manage/users\<close> does not.\<close>

theorem nsToTitle_partial_witness:
  "[] \<in> set (split 0x2F (replaceStr (js ''admin/'') [] (js ''admin/manage/''))) \<and>
   nsToTitle (upperTable (demoEnv\<lparr>readFile := \<lambda>ns. Inr (js ''Page'')\<rparr>)) (js ''admin/manage/'')
     = Inl TypeError \<and>
   readFile (demoEnv\<lparr>readFile := \<lambda>ns. Inr (js ''Page'')\<rparr>) (js ''admin/manage/'')
     = Inr (js ''Page'') \<and>
   fst (initFallback (demoEnv\<lparr>readFile := \<lambda>ns. Inr (js ''Page'')\<rparr>) (js ''admin/manage/'') state0)
     = Inl TypeError \<and>
   [] \<notin> set (split 0x2F (replaceStr (js ''admin/'') [] (js ''admin/manage/users''))) \<and>
   (\<exists>t. nsToTitle (upperTable demoEnv) (js ''admin/manage/users'') = Inr t)"
proof -
  let ?env = "demoEnv\<lparr>readFile := \<lambda>ns. Inr (js ''Page'')\<rparr>"
  have 1: "[] \<in> set (split 0x2F (replaceStr (js ''admin/'') [] (js ''admin/manage/'')))"
    by (simp add: js_def startsWith_def)
  have 2: "[] \<notin> set (split 0x2F (replaceStr (js ''admin/'') [] (js ''admin/manage/users'')))"
    by (simp add: js_def startsWith_def)
  have 3: "readFile ?env (js ''admin/manage/'') = Inr (js ''Page'')" by simp
  from nsToTitle_partial [of "js ''admin/manage/''" ?env state0 "[]" "[]" "[]"] 1 3
  have 4: "nsToTitle (upperTable ?env) (js ''admin/manage/'') = Inl TypeError"
    and 5: "fst (initFallback ?env (js ''admin/manage/'') state0) = Inl TypeError" by blast+
  from nsToTitle_partial [of "js ''admin/manage/users''" demoEnv state0 "[]" "[]" "[]"] 2
  have 6: "\<exists>t. nsToTitle (upperTable demoEnv) (js ''admin/manage/users'') = Inr t" by blast
  from 1 2 3 4 5 6 show ?thesis by blast
qed

text \<open>
  C8 (amended). For a namespace whose segments, after the removal of the first \<^verbatim>\<open>admin/\<close>
  (the prefix, when the namespace starts with it), are all non-empty, the fallback title is
  the segments title-cased and joined with \<^verbatim>\<open> > \<close>, in which every code unit outside
  letters, \<^verbatim>\<open>>\<close> and space is replaced by a space (not removed). When the template can be
  read, the entry's translations end with a newline and this title, which holds no newline
  itself and so is the last line, and the entry's title is this title.
\<close>

theorem initFallback_title:
  assumes segs: "[] \<notin> set (split 0x2F (replaceStr (js ''admin/'') [] ns))"
    and rd: "readFile env ns = Inr template"
  shows "\<exists>t. nsToTitle (upperTable env) ns = Inr t \<and>
           t = map (\<lambda>c. if titleChar c then c else 0x20)
                 (join (js '' > '') (map (titleCase (upperTable env))
                    (split 0x2F (replaceStr (js ''admin/'') [] ns)))) \<and>
           fst (initFallback env ns s) =
             Inr \<lparr>namespace = ns,
                  translations_str =
                    simplify (removePatterns env (sanitize env template)) @ [0x0A] @ t,
                  title = Some t\<rparr> \<and>
           0x0A \<notin> set t \<and>
           (startsWith ns (js ''admin/'') \<longrightarrow>
              replaceStr (js ''admin/'') [] ns = drop (length (js ''admin/'')) ns)"
proof -
  let ?t = "map (\<lambda>c. if titleChar c then c else 0x20)
                 (join (js '' > '') (map (titleCase (upperTable env))
                    (split 0x2F (replaceStr (js ''admin/'') [] ns))))"
  have t: "nsToTitle (upperTable env) ns = Inr ?t"
    using segs by (simp add: nsToTitle_eq del: split.simps)
  have sp: "titleChar 0x20" by (simp add: titleChar_def)
  have "\<forall>c \<in> set ?t. titleChar c" using sp by auto
  then have nonl: "0x0A \<notin> set ?t" using titleChar_not_newline by blast
  have fb: "fst (initFallback env ns s) =
             Inr \<lparr>namespace = ns,
                  translations_str =
                    simplify (removePatterns env (sanitize env template)) @ [0x0A] @ ?t,
                  title = Some ?t\<rparr>"
    by (simp add: initFallback_def Let_def rd t del: split.simps)
  have pre: "startsWith ns (js ''admin/'') \<longrightarrow>
              replaceStr (js ''admin/'') [] ns = drop (length (js ''admin/'')) ns"
    by (simp add: replaceStr_prefix)
  from t nonl fb pre show ?thesis by blast
qed

text \<open>C8 (witness): the fallback entry of \<^verbatim>\<open>admin/extend/plugins\<close>.\<close>

theorem initFallback_title_witness:
  "[] \<notin> set (split 0x2F (replaceStr (js ''admin/'') [] (js ''admin/extend/plugins''))) \<and>
   readFile demoEnv (js ''admin/extend/plugins'') =
     Inr (js ''Plugins  {{count}} '' @ [0x0A, 0x0A] @ js ''Find'') \<and>
   startsWith (js ''admin/extend/plugins'') (js ''admin/'') \<and>
   replaceStr (js ''admin/'') [] (js ''admin/extend/plugins'') = js ''extend/plugins'' \<and>
   nsToTitle (upperTable demoEnv) (js ''admin/extend/plugins'') = Inr (js ''Extend > Plugins'') \<and>
   fst (initFallback demoEnv (js ''admin/extend/plugins'') state0) =
     Inr \<lparr>namespace = js ''admin/extend/plugins'',
          translations_str = js ''Plugins'' @ [0x0A] @ js ''Find'' @ [0x0A] @ js ''Extend > Plugins'',
          title = Some (js ''Extend > Plugins'')\<rparr>"
proof -
  let ?p = "js ''admin/extend/plugins''"
  let ?tpl = "js ''Plugins  {{count}} '' @ [0x0A, 0x0A] @ js ''Find''"
  have 1: "[] \<notin> set (split 0x2F (replaceStr (js ''admin/'') [] ?p))"
    by (simp add: js_def startsWith_def)
  have 2: "readFile demoEnv ?p = Inr ?tpl" by (simp add: demoEnv_def js_def)
  have 3: "map (\<lambda>c. if titleChar c then c else 0x20)
             (join (js '' > '') (map (titleCase (upperTable demoEnv))
                (split 0x2F (replaceStr (js ''admin/'') [] ?p)))) = js ''Extend > Plugins''"
    by (simp add: js_def startsWith_def titleCase_def toUpperCase1_def titleChar_def demoEnv_def)
  have 4: "simplify (removePatterns demoEnv (sanitize demoEnv ?tpl)) = js ''Plugins'' @ [0x0A] @ js ''Find''"
    by (simp add: simplify_direct sanitize_def demoEnv_def js_def blankStart_def hws_def nl_def ws_def
          afterClose_def)
  have 5: "startsWith ?p (js ''admin/'')" by (simp add: js_def startsWith_def)
  have 6: "drop (length (js ''admin/'')) ?p = js ''extend/plugins''" by (simp add: js_def)
  from initFallback_title [OF 1 2, of state0] 3 4 5 6 1 2 show ?thesis by simp
qed

text \<open>
  C8 (counterexample). The specification strips the characters outside letters, \<^verbatim>\<open>>\<close> and
  space; the code puts a space in their place. For \<^verbatim>\<open>admin/manage/admins-mods\<close> the code
  returns \<^verbatim>\<open>Manage > Admins mods\<close>, the specification's wording gives
  \<^verbatim>\<open>Manage > Adminsmods\<close>.
\<close>

theorem nsToTitle_strip_counterexample:
  "nsToTitle (upperTable demoEnv) (js ''admin/manage/admins-mods'') = Inr (js ''Manage > Admins mods'') \<and>
   specTitle (upperTable demoEnv) (js ''admin/manage/admins-mods'') = js ''Manage > Adminsmods''"
  by (simp add: nsToTitle_eq specTitle_def dropPrefix_def js_def startsWith_def titleCase_def
        toUpperCase1_def titleChar_def demoEnv_def)

text \<open>
  C7 (amended). Let the title expression match the namespace with the section \<open>sect\<close> and
  the page \<open>page\<close>, the translation table be non-empty and the translator translate the key.
  Then the key is \<^verbatim>\<open>[[admin/menu:section-S]] > [[admin/menu:<section>/<page>]]\<close>, where
  \<^verbatim>\<open>S\<close> is \<^verbatim>\<open>advanced\<close> for the section \<^verbatim>\<open>development\<close> and the section otherwise; the second
  reference keeps the section as matched. The entry's translations are the sanitized join
  of the table's values with newlines, a newline, and the key untranslated; its title is
  the translated key. (\<open>search_titleRe\<close>: a namespace \<^verbatim>\<open>admin/<section>/<page>\<close> with a
  section free of slashes is matched with these two captures.)
\<close>

theorem buildNamespace_translated:
  assumes cr: "Translator_create env language = Inr tr"
    and tbl: "getTranslation tr ns = Inr (Some tbl)" and ne: "tbl \<noteq> []"
    and tt: "translate tr (titleKey ns) = Inr translatedTitle"
    and m: "search titleRe 0 ns = Some (i, (j, r, titleMatch))"
    and sect: "titleMatch 1 = Some sect" and page: "titleMatch 2 = Some page" and pne: "page \<noteq> []"
  shows "titleKey ns =
           js ''[[admin/menu:section-'' @
           (if sect = js ''development'' then js ''advanced'' else sect) @
           js '']]'' @ js '' > [[admin/menu:'' @ sect @ js ''/'' @ page @ js '']]'' \<and>
         fst (buildNamespace env language ns s) =
           Inr \<lparr>namespace = ns,
                translations_str = sanitize env (join [0x0A] tbl) @ [0x0A] @ titleKey ns,
                title = Some translatedTitle\<rparr>"
proof
  show "titleKey ns =
           js ''[[admin/menu:section-'' @
           (if sect = js ''development'' then js ''advanced'' else sect) @
           js '']]'' @ js '' > [[admin/menu:'' @ sect @ js ''/'' @ page @ js '']]''"
    using m sect page pne by (simp add: titleKey_def interp_def)
next
  have "\<not> (Some tbl = None \<or> Some tbl = Some [])" using ne by simp
  then show "fst (buildNamespace env language ns s) =
           Inr \<lparr>namespace = ns,
                translations_str = sanitize env (join [0x0A] tbl) @ [0x0A] @ titleKey ns,
                title = Some translatedTitle\<rparr>"
    using ne by (simp add: buildNamespace_def cr tbl tt Let_def)
qed

text \<open>C7 (witness): \<^verbatim>\<open>admin/manage/users\<close> on the small installation.\<close>

theorem buildNamespace_translated_witness:
  "Translator_create demoEnv (js ''en-GB'') = Inr demoTranslator \<and>
   getTranslation demoTranslator (js ''admin/'' @ js ''manage'' @ 0x2F # js ''users'') =
     Inr (Some [js ''Users'', js ''Edit user'']) \<and>
   translate demoTranslator (titleKey (js ''admin/'' @ js ''manage'' @ 0x2F # js ''users'')) =
     Inr (js ''Manage > Users'') \<and>
   (\<exists>j. search titleRe 0 (js ''admin/'' @ js ''manage'' @ 0x2F # js ''users'') =
     Some (0, (j, [], [1 \<mapsto> js ''manage'', 2 \<mapsto> js ''users'']))) \<and>
   titleKey (js ''admin/'' @ js ''manage'' @ 0x2F # js ''users'') =
     js ''[[admin/menu:section-manage]] > [[admin/menu:manage/users]]'' \<and>
   fst (buildNamespace demoEnv (js ''en-GB'') (js ''admin/'' @ js ''manage'' @ 0x2F # js ''users'') state0) =
     Inr \<lparr>namespace = js ''admin/manage/users'',
          translations_str = js ''Users'' @ [0x0A] @ js ''Edit user'' @ [0x0A] @
             js ''[[admin/menu:section-manage]] > [[admin/menu:manage/users]]'',
          title = Some (js ''Manage > Users'')\<rparr>"
proof -
  let ?ns = "js ''admin/'' @ js ''manage'' @ 0x2F # js ''users''"
  have nsv: "?ns = js ''admin/manage/users''" by (simp add: js_def)
  have cr: "Translator_create demoEnv (js ''en-GB'') = Inr demoTranslator"
    by (simp add: demoEnv_def js_def)
  have tbl: "getTranslation demoTranslator ?ns = Inr (Some [js ''Users'', js ''Edit user''])"
    by (simp add: demoTranslator_def js_def)
  have ne: "[js ''Users'', js ''Edit user''] \<noteq> []" by simp
  have "js ''manage'' \<noteq> []" "js ''users'' \<noteq> []" "0x2F \<notin> set (js ''manage'')"
    "\<forall>c \<in> set (js ''manage''). dot c" "\<forall>c \<in> set (js ''users''). dot c"
    by (simp_all add: js_def dot_def)
  from search_titleRe [OF this] obtain j where
    m: "search titleRe 0 ?ns = Some (0, (j, [], [1 \<mapsto> js ''manage'', 2 \<mapsto> js ''users'']))"
    by blast
  have s1: "[1 \<mapsto> js ''manage'', 2 \<mapsto> js ''users''] (1::nat) = Some (js ''manage'')" by simp
  have s2: "[1 \<mapsto> js ''manage'', 2 \<mapsto> js ''users''] (2::nat) = Some (js ''users'')" by simp
  have pne: "js ''users'' \<noteq> []" by (simp add: js_def)
  have key: "titleKey ?ns = js ''[[admin/menu:section-manage]] > [[admin/menu:manage/users]]''"
    using m by (simp add: titleKey_def interp_def) (simp add: js_def)
  have tt: "translate demoTranslator (titleKey ?ns) = Inr (js ''Manage > Users'')"
    by (simp only: key) (simp add: demoTranslator_def)
  from buildNamespace_translated [OF cr tbl ne tt m s1 s2 pne, of state0]
  have "fst (buildNamespace demoEnv (js ''en-GB'') ?ns state0) =
     Inr \<lparr>namespace = ?ns,
          translations_str = sanitize demoEnv (join [0x0A] [js ''Users'', js ''Edit user'']) @ [0x0A] @ titleKey ?ns,
          title = Some (js ''Manage > Users'')\<rparr>" by blast
  then have "fst (buildNamespace demoEnv (js ''en-GB'') ?ns state0) =
     Inr \<lparr>namespace = js ''admin/manage/users'',
          translations_str = js ''Users'' @ [0x0A] @ js ''Edit user'' @ [0x0A] @
             js ''[[admin/menu:section-manage]] > [[admin/menu:manage/users]]'',
          title = Some (js ''Manage > Users'')\<rparr>"
    by (simp only: key) (simp add: sanitize_def demoEnv_def js_def)
  with cr tbl tt m key show ?thesis by blast
qed

text \<open>
  C7 (counterexample). For \<^verbatim>\<open>admin/development/logger\<close> the code builds the key
  \<^verbatim>\<open>[[admin/menu:section-advanced]] > [[admin/menu:development/logger]]\<close>: the section is
  replaced in the first reference only. The specification's wording, with the section
  replaced in the key, gives \<^verbatim>\<open>advanced/logger\<close> in the second reference.
\<close>

theorem buildNamespace_development_counterexample:
  "fst (buildNamespace demoEnv (js ''en-GB'') (js ''admin/development/logger'') state0) =
     Inr \<lparr>namespace = js ''admin/development/logger'',
          translations_str = js ''Logger'' @ [0x0A] @
             js ''[[admin/menu:section-advanced]] > [[admin/menu:development/logger]]'',
          title = Some (js ''[[admin/menu:section-advanced]] > [[admin/menu:development/logger]]'')\<rparr> \<and>
   specTitleKey (js ''development'') (js ''logger'') =
     js ''[[admin/menu:section-advanced]] > [[admin/menu:advanced/logger]]''"
  by (simp add: model_defs demo_defs re_defs specTitleKey_def)

section \<open>Caches and error handling\<close>

lemma emit_simps [simp]:
  "fallbackCache (emit ev s) = fallbackCache s"
  "cache (emit ev s) = cache s"
  "trace (emit ev s) = trace s @ [ev]"
  by (simp_all add: emit_def)

subsection \<open>One build, run alone\<close>

lemma finish_start:
  "finish env (fst (startBuild env language ns s)) (snd (startBuild env language ns s)) =
     buildNamespace env language ns s"
  by (auto simp: startBuild_def buildNamespace_def resume_def settle_def fallback_def Let_def
           initFallback_def
           split: sum.splits option.splits prod.splits)

lemma finish_unfold:
  "finish env t s =
     (case t of Settled r \<Rightarrow> (r, s)
      | _ \<Rightarrow> finish env (fst (resume env t s)) (snd (resume env t s)))"
  by (cases t) (simp_all add: case_prod_beta)

lemma finish_resume:
  "finish env (fst (resume env t s)) (snd (resume env t s)) = finish env t s"
  by (cases t) (simp_all add: case_prod_beta resume_def)

lemma initFallback_fst: "fst (initFallback env ns s) = fst (initFallback env ns s')"
  by (simp add: initFallback_def Let_def split: sum.splits)

lemma catchBlock_fst:
  "fst (catchBlock ns err s) = Inr \<lparr>namespace = ns, translations_str = [], title = None\<rparr>"
  by (simp add: catchBlock_def)

lemma catchBlock_caches:
  "fallbackCache (snd (catchBlock ns err s)) = fallbackCache s"
  "cache (snd (catchBlock ns err s)) = cache s"
  by (simp_all add: catchBlock_def)



lemma initFallback_caches:
  "fallbackCache (snd (initFallback env ns s)) = fallbackCache s"
  "cache (snd (initFallback env ns s)) = cache s"
  by (simp_all add: initFallback_def Let_def split: sum.splits)

lemma initFallback_trace: "trace (snd (initFallback env ns s)) = trace s @ [ReadFile ns]"
  by (simp add: initFallback_def Let_def split: sum.splits)

subsection \<open>One step of one build\<close>

lemma resume_fallbackCache:
  "fallbackCache (snd (resume env t s)) =
     (case t of
        AwaitInitFallback ns (Inr params) \<Rightarrow> (fallbackCache s)(ns \<mapsto> params)
      | _ \<Rightarrow> fallbackCache s)"
  by (auto simp: resume_def settle_def Let_def catchBlock_caches initFallback_caches
           split: task.splits sum.splits option.splits)

lemma resume_cache: "cache (snd (resume env t s)) = cache s"
  by (auto simp: resume_def settle_def Let_def catchBlock_caches initFallback_caches
           split: task.splits sum.splits option.splits)

lemma resume_trace: "\<exists>evs. trace (snd (resume env t s)) = trace s @ evs"
  by (auto simp: resume_def settle_def Let_def catchBlock_def initFallback_trace
           split: task.splits sum.splits option.splits)

lemma outcome_cong:
  "fallbackCache s = fallbackCache s' \<Longrightarrow> outcome env s t = outcome env s' t"
  by (cases t)
    (auto simp: outcome_def initFallback_fst [of env _ s s']
          split: sum.splits option.splits)

lemma outcome_resume:
  "outcome env (snd (resume env t s)) (fst (resume env t s)) = outcome env s t"
  by (cases t)
    (auto simp: resume_def settle_def outcome_def caught_def catchBlock_fst Let_def
          initFallback_fst [of env _ "snd (initFallback env _ s)" s]
          split: sum.splits option.splits)

lemma rank_resume: "\<forall>r. t \<noteq> Settled r \<Longrightarrow> rank (fst (resume env t s)) < rank t"
  by (cases t)
    (auto simp: resume_def settle_def Let_def split: sum.splits option.splits)

lemma finish_outcome: "fst (finish env t s) = outcome env s t"
proof (induction "rank t" arbitrary: t s rule: less_induct)
  case less
  show ?case
  proof (cases "\<exists>r. t = Settled r")
    case True
    then show ?thesis
      by (auto simp: outcome_def)
  next
    case False
    then have ns: "\<forall>r. t \<noteq> Settled r"
      by simp
    have "fst (finish env (fst (resume env t s)) (snd (resume env t s))) =
            outcome env (snd (resume env t s)) (fst (resume env t s))"
      using rank_resume [OF ns] by (rule less.hyps)
    then show ?thesis
      by (simp add: finish_resume outcome_resume)
  qed
qed

lemma coherent_resume:
  assumes "coherent env s t"
  shows "coherent env (snd (resume env t s)) (fst (resume env t s))"
  using assms
  by (cases t)
    (auto simp: resume_def settle_def coherent_def Let_def initFallback_caches
          initFallback_fst [of env _ "snd (initFallback env _ s)" s]
          split: sum.splits option.splits)

lemma coherent_cong:
  "fallbackCache s = fallbackCache s' \<Longrightarrow> coherent env s t = coherent env s' t"
  by (cases t) (auto simp: coherent_def initFallback_fst [of env _ s s'])

lemma resume_others:
  assumes t: "coherent env s t" and u: "coherent env s u"
  shows "coherent env (snd (resume env t s)) u"
    and "outcome env (snd (resume env t s)) u = outcome env s u"
proof -
  let ?s' = "snd (resume env t s)"
  have key: "fallbackCache ?s' = fallbackCache s \<or>
    (\<exists>ns params. fallbackCache ?s' = (fallbackCache s)(ns \<mapsto> params) \<and>
       fst (initFallback env ns s) = Inr params \<and>
       (\<forall>e. fallbackCache s ns = Some e \<longrightarrow> e = params))"
  proof (cases "\<exists>ns params. t = AwaitInitFallback ns (Inr params)")
    case True
    then obtain ns params where eq: "t = AwaitInitFallback ns (Inr params)"
      by blast
    have "fallbackCache ?s' = (fallbackCache s)(ns \<mapsto> params)"
      by (simp add: eq resume_fallbackCache)
    moreover have "fst (initFallback env ns s) = Inr params"
      and "\<forall>e. fallbackCache s ns = Some e \<longrightarrow> e = params"
      using t by (simp_all add: eq coherent_def)
    ultimately show ?thesis
      by blast
  next
    case False
    then have "fallbackCache ?s' = fallbackCache s"
      by (cases t) (auto simp: resume_fallbackCache split: sum.splits)
    then show ?thesis
      by simp
  qed
  show "coherent env ?s' u"
    using key u
    by (cases u)
      (auto simp: coherent_def initFallback_fst [of env _ ?s' s] split: if_splits)
  show "outcome env ?s' u = outcome env s u"
    using key
    by (cases u)
      (auto simp: outcome_def caught_def initFallback_fst [of env _ ?s' s]
            split: sum.splits option.splits if_splits)
qed


lemma finish_step:
  "\<forall>r. t \<noteq> Settled r \<Longrightarrow>
     finish env t s = finish env (fst (resume env t s)) (snd (resume env t s))"
  by (simp add: finish_resume)

subsection \<open>What every step preserves, every run preserves\<close>

lemma finish_preserves:
  assumes step: "\<And>t s. coherent env s t \<Longrightarrow> P s \<Longrightarrow> P (snd (resume env t s))"
    and "coherent env s t" and "P s"
  shows "P (snd (finish env t s))"
  using assms(2,3)
proof (induction "rank t" arbitrary: t s rule: less_induct)
  case less
  show ?case
  proof (cases "\<exists>r. t = Settled r")
    case True
    then show ?thesis
      using less.prems by auto
  next
    case False
    then have ns: "\<forall>r. t \<noteq> Settled r"
      by simp
    have "P (snd (finish env (fst (resume env t s)) (snd (resume env t s))))"
      using rank_resume [OF ns] coherent_resume [OF less.prems(1)] step [OF less.prems]
      by (rule less.hyps)
    then show ?thesis
      by (simp add: finish_resume)
  qed
qed

lemma finish_others:
  assumes "coherent env s t" and "coherent env s u"
  shows "coherent env (snd (finish env t s)) u"
    and "outcome env (snd (finish env t s)) u = outcome env s u"
proof -
  have "coherent env (snd (finish env t s)) u \<and> outcome env (snd (finish env t s)) u = outcome env s u"
    by (rule finish_preserves [where P = "\<lambda>\<sigma>. coherent env \<sigma> u \<and> outcome env \<sigma> u = outcome env s u"])
       (use assms in \<open>simp_all add: resume_others\<close>)
  then show "coherent env (snd (finish env t s)) u"
    and "outcome env (snd (finish env t s)) u = outcome env s u"
    by simp_all
qed

lemma runSchedule_length: "length (fst (runSchedule env sched ts s)) = length ts"
  by (induction sched arbitrary: ts s) (simp_all add: case_prod_beta)

lemma coherent_update:
  assumes all: "\<forall>t\<in>set ts. coherent env s t" and i: "i < length ts"
  shows "\<forall>t\<in>set (ts[i := fst (resume env (ts ! i) s)]). coherent env (snd (resume env (ts ! i) s)) t"
proof
  fix t
  assume "t \<in> set (ts[i := fst (resume env (ts ! i) s)])"
  then have "t = fst (resume env (ts ! i) s) \<or> t \<in> set ts"
    using set_update_subset_insert [of ts i] by auto
  moreover have ci: "coherent env s (ts ! i)"
    using all i by simp
  ultimately show "coherent env (snd (resume env (ts ! i) s)) t"
    using coherent_resume [OF ci] resume_others(1) [OF ci] all by auto
qed

lemma runSchedule_preserves:
  assumes step: "\<And>t s. coherent env s t \<Longrightarrow> P s \<Longrightarrow> P (snd (resume env t s))"
    and "\<forall>t\<in>set ts. coherent env s t" and "P s"
  shows "(\<forall>t\<in>set (fst (runSchedule env sched ts s)). coherent env (snd (runSchedule env sched ts s)) t)
         \<and> P (snd (runSchedule env sched ts s))"
  using assms(2,3)
proof (induction sched arbitrary: ts s)
  case Nil
  then show ?case by simp
next
  case (Cons i sched)
  show ?case
  proof (cases "i < length ts")
    case True
    have ci: "coherent env s (ts ! i)"
      using Cons.prems(1) True by simp
    show ?thesis
      using Cons.IH [OF coherent_update [OF Cons.prems(1) True] step [OF ci Cons.prems(2)]] True
      by (simp add: case_prod_beta)
  next
    case False
    then show ?thesis
      using Cons.IH [OF Cons.prems] by simp
  qed
qed

lemma runSchedule_outcomes:
  assumes "\<forall>t\<in>set ts. coherent env s t"
  shows "map (outcome env (snd (runSchedule env sched ts s))) (fst (runSchedule env sched ts s)) =
         map (outcome env s) ts"
  using assms
proof (induction sched arbitrary: ts s)
  case Nil
  then show ?case by simp
next
  case (Cons i sched)
  show ?case
  proof (cases "i < length ts")
    case True
    let ?t' = "fst (resume env (ts ! i) s)" and ?s' = "snd (resume env (ts ! i) s)"
    have ci: "coherent env s (ts ! i)"
      using Cons.prems True by simp
    have others: "map (outcome env ?s') ts = map (outcome env s) ts"
      using resume_others(2) [OF ci] Cons.prems by simp
    have "map (outcome env ?s') (ts[i := ?t']) = (map (outcome env ?s') ts)[i := outcome env ?s' ?t']"
      by (simp add: map_update)
    also have "\<dots> = (map (outcome env s) ts)[i := outcome env s (ts ! i)]"
      by (simp add: others outcome_resume)
    also have "\<dots> = map (outcome env s) ts"
      using True by (simp add: list_update_same_conv)
    finally show ?thesis
      using Cons.IH [OF coherent_update [OF Cons.prems True]] True
      by (simp add: case_prod_beta)
  next
    case False
    then show ?thesis
      using Cons.IH [OF Cons.prems] by simp
  qed
qed

lemma drain_preserves:
  assumes step: "\<And>t s. coherent env s t \<Longrightarrow> P s \<Longrightarrow> P (snd (resume env t s))"
    and "\<forall>t\<in>set ts. coherent env s t" and "P s"
  shows "P (snd (runAll (map (finish env) ts) s))"
  using assms(2,3)
proof (induction ts arbitrary: s)
  case Nil
  then show ?case by simp
next
  case (Cons t ts)
  have "\<forall>u\<in>set ts. coherent env (snd (finish env t s)) u"
    using Cons.prems(1) finish_others(1) [of env s t] by simp
  moreover have "P (snd (finish env t s))"
    using Cons.prems by (intro finish_preserves [where P = P] step) simp_all
  ultimately show ?case
    using Cons.IH by (simp add: case_prod_beta)
qed

lemma drain_values:
  assumes "\<forall>t\<in>set ts. coherent env s t"
  shows "fst (runAll (map (finish env) ts) s) = map (outcome env s) ts"
  using assms
proof (induction ts arbitrary: s)
  case Nil
  then show ?case by simp
next
  case (Cons t ts)
  have coh: "\<forall>u\<in>set ts. coherent env (snd (finish env t s)) u"
    using Cons.prems finish_others(1) [of env s t] by simp
  have "map (outcome env (snd (finish env t s))) ts = map (outcome env s) ts"
    using Cons.prems finish_others(2) [of env s t] by simp
  then show ?case
    using Cons.IH [OF coh] by (simp add: case_prod_beta finish_outcome)
qed

subsection \<open>One build, run to its end\<close>

lemma catchBlock_result:
  "\<exists>evs. catchBlock ns err s = (Inr \<lparr>namespace = ns, translations_str = [], title = None\<rparr>, s\<lparr>trace := trace s @ evs\<rparr>)
     \<and> (\<forall>x. ReadFile x \<notin> set evs)"
proof (cases "instanceofError err")
  case True
  then have "catchBlock ns err s = (Inr \<lparr>namespace = ns, translations_str = [], title = None\<rparr>, s\<lparr>trace := trace s @ [LogError err]\<rparr>)"
    by (simp add: catchBlock_def emit_def)
  then show ?thesis by (intro exI[of _ "[LogError err]"]) simp
next
  case False
  then have "catchBlock ns err s = (Inr \<lparr>namespace = ns, translations_str = [], title = None\<rparr>, s\<lparr>trace := trace s @ []\<rparr>)"
    by (simp add: catchBlock_def)
  then show ?thesis by (intro exI[of _ "[]"]) simp
qed

lemma buildNamespace_throws:
  assumes cr: "Translator_create env language = Inr tr"
  and thr: "getTranslation tr ns = Inl err \<or>
     (\<exists>tbl. getTranslation tr ns = Inr (Some tbl) \<and> tbl \<noteq> [] \<and> translate tr (titleKey ns) = Inl err)"
  shows "\<exists>evs. buildNamespace env language ns s =
            (Inr \<lparr>namespace = ns, translations_str = [], title = None\<rparr>, s\<lparr>trace := trace s @ evs\<rparr>)
          \<and> (\<forall>x. ReadFile x \<notin> set evs)"
proof -
  from thr show ?thesis
  proof
    assume g: "getTranslation tr ns = Inl err"
    let ?s1 = "emit (GetTranslation language ns) (emit (Create language) s)"
    from catchBlock_result [of ns err ?s1] obtain evs where
      c: "catchBlock ns err ?s1 = (Inr \<lparr>namespace = ns, translations_str = [], title = None\<rparr>, ?s1\<lparr>trace := trace ?s1 @ evs\<rparr>)"
      and r: "\<forall>x. ReadFile x \<notin> set evs" by blast
    have "buildNamespace env language ns s = catchBlock ns err ?s1"
      by (simp add: buildNamespace_def cr g)
    with c have "buildNamespace env language ns s =
       (Inr \<lparr>namespace = ns, translations_str = [], title = None\<rparr>,
        s\<lparr>trace := trace s @ ([Create language, GetTranslation language ns] @ evs)\<rparr>)"
      by (simp add: emit_def)
    moreover have "\<forall>x. ReadFile x \<notin> set ([Create language, GetTranslation language ns] @ evs)"
      using r by simp
    ultimately show ?thesis by blast
  next
    assume "\<exists>tbl. getTranslation tr ns = Inr (Some tbl) \<and> tbl \<noteq> [] \<and> translate tr (titleKey ns) = Inl err"
    then obtain tbl where g: "getTranslation tr ns = Inr (Some tbl)" and ne: "tbl \<noteq> []"
      and t: "translate tr (titleKey ns) = Inl err" by blast
    let ?s2 = "emit (Translate language (titleKey ns)) (emit (GetTranslation language ns) (emit (Create language) s))"
    from catchBlock_result [of ns err ?s2] obtain evs where
      c: "catchBlock ns err ?s2 = (Inr \<lparr>namespace = ns, translations_str = [], title = None\<rparr>, ?s2\<lparr>trace := trace ?s2 @ evs\<rparr>)"
      and r: "\<forall>x. ReadFile x \<notin> set evs" by blast
    have "buildNamespace env language ns s = catchBlock ns err ?s2"
      by (simp add: buildNamespace_def cr g ne t Let_def)
    with c have "buildNamespace env language ns s =
       (Inr \<lparr>namespace = ns, translations_str = [], title = None\<rparr>,
        s\<lparr>trace := trace s @ ([Create language, GetTranslation language ns, Translate language (titleKey ns)] @ evs)\<rparr>)"
      by (simp add: emit_def)
    moreover have "\<forall>x. ReadFile x \<notin> set ([Create language, GetTranslation language ns, Translate language (titleKey ns)] @ evs)"
      using r by simp
    ultimately show ?thesis by blast
  qed
qed


lemma buildNamespace_resolves:
  assumes "Translator_create env language = Inr tr"
  shows "\<exists>e. fst (buildNamespace env language ns s) = Inr e"
  using assms
  by (auto simp: buildNamespace_def fallback_def initFallback_def catchBlock_def Let_def
           split: sum.splits option.splits prod.splits)

lemma buildNamespace_cache: "cache (snd (buildNamespace env language ns s)) = cache s"
  by (auto simp: buildNamespace_def fallback_def initFallback_def catchBlock_def Let_def
           split: sum.splits option.splits prod.splits)

lemma buildNamespace_same_caches:
  assumes "fallbackCache s = fallbackCache t"
  shows "fst (buildNamespace env language ns s) = fst (buildNamespace env language ns t) \<and>
         fallbackCache (snd (buildNamespace env language ns s)) =
           fallbackCache (snd (buildNamespace env language ns t))"
  using assms
  by (auto simp: buildNamespace_def fallback_def initFallback_def catchBlock_def Let_def
           split: sum.splits option.splits prod.splits)

lemma runAll_append:
  "runAll (xs @ ys) s =
     (fst (runAll xs s) @ fst (runAll ys (snd (runAll xs s))),
      snd (runAll ys (snd (runAll xs s))))"
  by (induction xs arbitrary: s) (simp_all add: case_prod_beta)

lemma runAll_length: "length (fst (runAll ts s)) = length ts"
  by (induction ts arbitrary: s) (simp_all add: case_prod_beta)

lemma buildAll_same_caches:
  assumes "fallbackCache s = fallbackCache t"
  shows "fst (runAll (map (buildNamespace env language) nss) s) =
         fst (runAll (map (buildNamespace env language) nss) t)"
  using assms
proof (induction nss arbitrary: s t)
  case Nil
  show ?case by simp
next
  case (Cons a nss)
  from buildNamespace_same_caches [OF Cons.prems, of env language a]
  have r: "fst (buildNamespace env language a s) = fst (buildNamespace env language a t)"
    and c: "fallbackCache (snd (buildNamespace env language a s)) =
            fallbackCache (snd (buildNamespace env language a t))" by simp_all
  from Cons.IH [OF c] r show ?case
    by (simp add: case_prod_beta)
qed

lemma buildAll_resolves:
  assumes "Translator_create env language = Inr tr"
  shows "\<exists>es. fst (runAll (map (buildNamespace env language) nss) s) = map Inr es"
proof (induction nss arbitrary: s)
  case Nil
  show ?case by simp
next
  case (Cons a nss)
  from buildNamespace_resolves [OF assms, of a s] obtain e where
    e: "fst (buildNamespace env language a s) = Inr e" by auto
  from Cons.IH [of "snd (buildNamespace env language a s)"] obtain es where
    "fst (runAll (map (buildNamespace env language) nss) (snd (buildNamespace env language a s)))
       = map Inr es" by blast
  with e have "fst (runAll (map (buildNamespace env language) (a # nss)) s) = map Inr (e # es)"
    by (simp add: case_prod_beta)
  then show ?case by blast
qed

lemma Promise_all_Inr: "Promise_all (map Inr es) = Inr es"
  by (induction es) auto

lemma buildNamespace_other_keys:
  "k \<noteq> ns \<Longrightarrow> fallbackCache (snd (buildNamespace env language ns s)) k = fallbackCache s k"
  by (auto simp: buildNamespace_def fallback_def initFallback_def catchBlock_def Let_def
           split: sum.splits option.splits prod.splits)

lemma buildNamespace_trace_grows:
  "set (trace s) \<subseteq> set (trace (snd (buildNamespace env language ns s)))"
  by (auto simp: buildNamespace_def fallback_def initFallback_def catchBlock_def Let_def
           split: sum.splits option.splits prod.splits)

lemma buildNamespace_failed_read:
  assumes cr: "Translator_create env language = Inr tr"
    and empty: "getTranslation tr ns = Inr None \<or> getTranslation tr ns = Inr (Some [])"
    and miss: "fallbackCache s ns = None"
    and rf: "readFile env ns = Inl e"
  shows "fst (buildNamespace env language ns s) = Inr \<lparr>namespace = ns, translations_str = [], title = None\<rparr>"
    and "fallbackCache (snd (buildNamespace env language ns s)) = fallbackCache s"
    and "ReadFile ns \<in> set (trace (snd (buildNamespace env language ns s)))"
  using assms
  by (auto simp: buildNamespace_def fallback_def initFallback_def catchBlock_def Let_def
           split: sum.splits option.splits prod.splits)









subsection \<open>The builds of one call\<close>

lemma startBuild_fst:
  "fst (startBuild env language ns s) =
     (case Translator_create env language of
        Inl e \<Rightarrow> Settled (Inl e)
      | Inr tr \<Rightarrow> AwaitGetTranslation language ns tr)"
  by (simp add: startBuild_def Let_def split: sum.splits)

lemma startBuild_caches:
  "fallbackCache (snd (startBuild env language ns s)) = fallbackCache s"
  "cache (snd (startBuild env language ns s)) = cache s"
  by (simp_all add: startBuild_def Let_def split: sum.splits)

lemma startBuild_coherent: "coherent env \<sigma> (fst (startBuild env language ns s))"
  by (simp add: startBuild_fst coherent_def split: sum.splits)

lemma startBuild_outcome:
  "outcome env s (fst (startBuild env language ns s')) = fst (buildNamespace env language ns s)"
proof -
  let ?sb = "startBuild env language ns s"
  have "fst (buildNamespace env language ns s) = outcome env (snd ?sb) (fst ?sb)"
    using finish_start [of env language ns s] finish_outcome [of env "fst ?sb" "snd ?sb"] by simp
  also have "\<dots> = outcome env s (fst ?sb)"
    by (rule outcome_cong) (simp add: startBuild_caches)
  finally show ?thesis
    by (simp add: startBuild_fst)
qed

lemma startAll_preserves:
  assumes "\<And>l s. P s \<Longrightarrow> P (emit (Create l) s)"
    and "\<And>l n s. P s \<Longrightarrow> P (emit (GetTranslation l n) s)" and "P s"
  shows "P (snd (runAll (map (\<lambda>(language, ns). startBuild env language ns) calls) s))"
  using assms(3)
proof (induction calls arbitrary: s)
  case Nil
  then show ?case by simp
next
  case (Cons c calls)
  have "P (snd (startBuild env (fst c) (snd c) s))"
    using Cons.prems assms(1,2) by (simp add: startBuild_def Let_def split: sum.splits)
  then show ?case
    using Cons.IH by (simp add: case_prod_beta)
qed

lemma startAll_fst:
  "fst (runAll (map (\<lambda>(language, ns). startBuild env language ns) calls) s) =
     map (\<lambda>(language, ns). fst (startBuild env language ns s')) calls"
  by (induction calls arbitrary: s) (simp_all add: case_prod_beta startBuild_fst)

lemma startAll_coherent:
  "\<forall>t\<in>set (fst (runAll (map (\<lambda>(language, ns). startBuild env language ns) calls) s)).
     coherent env \<sigma> t"
  by (auto simp: startAll_fst [of env calls s s] startBuild_coherent)

text \<open>
  The entries do not depend on the schedule: each is the entry of the build run alone,
  to its end, from the state in which the builds started.
\<close>

lemma runBuilds_values:
  "fst (runBuilds env sched calls s) = map (\<lambda>(language, ns). fst (buildNamespace env language ns s)) calls"
proof -
  let ?start = "runAll (map (\<lambda>(language, ns). startBuild env language ns) calls) s"
  let ?ts = "fst ?start" and ?s1 = "snd ?start"
  let ?run = "runSchedule env sched ?ts ?s1"
  have coh: "\<forall>t\<in>set ?ts. coherent env ?s1 t"
    by (rule startAll_coherent)
  have coh': "\<forall>t\<in>set (fst ?run). coherent env (snd ?run) t"
    using runSchedule_preserves [where P = "\<lambda>_. True", OF _ coh] by simp
  have fc: "fallbackCache ?s1 = fallbackCache s"
    by (rule startAll_preserves [where P = "\<lambda>\<sigma>. fallbackCache \<sigma> = fallbackCache s"]) simp_all
  have "fst (runBuilds env sched calls s) = fst (runAll (map (finish env) (fst ?run)) (snd ?run))"
    by (simp add: runBuilds_def case_prod_beta)
  also have "\<dots> = map (outcome env (snd ?run)) (fst ?run)"
    by (rule drain_values [OF coh'])
  also have "\<dots> = map (outcome env ?s1) ?ts"
    by (rule runSchedule_outcomes [OF coh])
  also have "\<dots> = map (outcome env s) ?ts"
    using outcome_cong [OF fc] by simp
  also have "\<dots> = map (\<lambda>(language, ns). fst (buildNamespace env language ns s)) calls"
    by (simp add: startAll_fst [of env calls s s] case_prod_beta startBuild_outcome)
  finally show ?thesis .
qed

lemma runBuilds_preserves:
  assumes step: "\<And>t s. coherent env s t \<Longrightarrow> P s \<Longrightarrow> P (snd (resume env t s))"
    and em: "\<And>l s. P s \<Longrightarrow> P (emit (Create l) s)"
      "\<And>l n s. P s \<Longrightarrow> P (emit (GetTranslation l n) s)"
    and "P s"
  shows "P (snd (runBuilds env sched calls s))"
proof -
  let ?start = "runAll (map (\<lambda>(language, ns). startBuild env language ns) calls) s"
  let ?ts = "fst ?start" and ?s1 = "snd ?start"
  let ?run = "runSchedule env sched ?ts ?s1"
  have coh: "\<forall>t\<in>set ?ts. coherent env ?s1 t"
    by (rule startAll_coherent)
  have P1: "P ?s1"
    using em assms(4) by (rule startAll_preserves [where P = P])
  have run: "(\<forall>t\<in>set (fst ?run). coherent env (snd ?run) t) \<and> P (snd ?run)"
    using step coh P1 by (rule runSchedule_preserves [where P = P])
  have "P (snd (runAll (map (finish env) (fst ?run)) (snd ?run)))"
    using step run by (intro drain_preserves [where P = P]) simp_all
  then show ?thesis
    by (simp add: runBuilds_def case_prod_beta)
qed

lemma runBuilds_cache: "cache (snd (runBuilds env sched calls s)) = cache s"
  by (rule runBuilds_preserves [where P = "\<lambda>\<sigma>. cache \<sigma> = cache s"])
     (simp_all add: resume_cache)


lemma runBuilds_length: "length (fst (runBuilds env sched calls s)) = length calls"
  by (simp add: runBuilds_values)

lemma runBuilds_resolves:
  assumes "Translator_create env language = Inr tr"
  shows "\<exists>es. fst (runBuilds env sched (map (Pair language) nss) s) = map Inr es"
proof -
  have "\<forall>ns. \<exists>e. fst (buildNamespace env language ns s) = Inr e"
    using buildNamespace_resolves [OF assms] by simp
  then obtain f where f: "\<And>ns. fst (buildNamespace env language ns s) = Inr (f ns)"
    by metis
  have "fst (runBuilds env sched (map (Pair language) nss) s) = map Inr (map f nss)"
    by (simp add: runBuilds_values f o_def)
  then show ?thesis
    by blast
qed


text \<open>They are also the entries of the builds run one after the other, each to its end.\<close>

lemma buildNamespace_after:
  "fst (buildNamespace env l n (snd (buildNamespace env l' n' s))) = fst (buildNamespace env l n s)"
proof -
  let ?sb = "startBuild env l' n' s"
  let ?u = "fst (startBuild env l n s)"
  have "fst (buildNamespace env l n (snd (buildNamespace env l' n' s))) =
          outcome env (snd (finish env (fst ?sb) (snd ?sb))) ?u"
    by (simp add: startBuild_outcome finish_start)
  also have "\<dots> = outcome env (snd ?sb) ?u"
    by (rule finish_others(2)) (rule startBuild_coherent)+
  also have "\<dots> = outcome env s ?u"
    by (rule outcome_cong) (simp add: startBuild_caches)
  finally show ?thesis
    by (simp add: startBuild_outcome)
qed

lemma buildAll_values:
  "fst (runAll (map (\<lambda>(l, n). buildNamespace env l n) calls) s) =
     map (\<lambda>(l, n). fst (buildNamespace env l n s)) calls"
proof (induction calls arbitrary: s)
  case Nil
  show ?case by simp
next
  case (Cons c calls)
  have "fst (runAll (map (\<lambda>(l, n). buildNamespace env l n) calls)
            (snd (buildNamespace env (fst c) (snd c) s))) =
        map (\<lambda>(l, n). fst (buildNamespace env l n s)) calls"
    by (simp only: Cons.IH) (simp add: case_prod_unfold buildNamespace_after)
  then show ?case
    by (simp add: case_prod_unfold)
qed

lemma runBuilds_sequential:
  "fst (runBuilds env sched calls s) = fst (runAll (map (\<lambda>(l, n). buildNamespace env l n) calls) s)"
  by (simp add: runBuilds_values buildAll_values)

lemma runBuilds_sequential_language:
  "fst (runBuilds env sched (map (Pair language) nss) s) =
     fst (runAll (map (buildNamespace env language) nss) s)"
  by (simp add: runBuilds_sequential o_def)

subsection \<open>A namespace whose Fallback Builder fails\<close>


lemma fallback_Inr:
  "fst (fallback env ns s) = Inr e \<longleftrightarrow>
     fallbackCache s ns = Some e \<or>
     fallbackCache s ns = None \<and> fst (initFallback env ns s) = Inr e"
  by (auto simp: fallback_def case_prod_beta split: option.splits sum.splits)

lemma resume_keeps_failed:
  assumes "coherent env s t" and "fst (initFallback env ns s) = Inl err"
    and "fallbackCache s ns = None"
  shows "fallbackCache (snd (resume env t s)) ns = None"
  using assms
  by (cases t) (auto simp: resume_fallbackCache coherent_def split: sum.splits)

lemma resume_reads:
  assumes "getTranslation tr ns = Inr None \<or> getTranslation tr ns = Inr (Some [])"
    and "fallbackCache s ns = None"
  shows "ReadFile ns \<in> set (trace (snd (resume env (AwaitGetTranslation language ns tr) s)))"
  using assms by (auto simp: resume_def initFallback_trace)

lemma resume_trace_mono: "x \<in> set (trace s) \<Longrightarrow> x \<in> set (trace (snd (resume env t s)))"
  using resume_trace [of env t s] by auto

lemma finish_trace_mono:
  assumes "coherent env s t" and "x \<in> set (trace s)"
  shows "x \<in> set (trace (snd (finish env t s)))"
  by (rule finish_preserves [where P = "\<lambda>\<sigma>. x \<in> set (trace \<sigma>)"])
     (use assms in \<open>simp_all add: resume_trace_mono\<close>)

lemma finish_keeps_failed:
  assumes "coherent env s t" and f: "fst (initFallback env ns s) = Inl err"
    and "fallbackCache s ns = None"
  shows "fallbackCache (snd (finish env t s)) ns = None"
proof (rule finish_preserves [where P = "\<lambda>\<sigma>. fallbackCache \<sigma> ns = None"])
  fix t and \<sigma> :: state
  assume "coherent env \<sigma> t" and "fallbackCache \<sigma> ns = None"
  then show "fallbackCache (snd (resume env t \<sigma>)) ns = None"
    using f initFallback_fst [of env ns \<sigma> s] by (intro resume_keeps_failed) simp_all
qed (use assms in simp_all)

lemma finish_reads:
  assumes empty: "getTranslation tr ns = Inr None \<or> getTranslation tr ns = Inr (Some [])"
    and miss: "fallbackCache s ns = None"
  shows "ReadFile ns \<in> set (trace (snd (finish env (AwaitGetTranslation language ns tr) s)))"
proof -
  let ?t = "AwaitGetTranslation language ns tr"
  have c: "coherent env s ?t"
    by (simp add: coherent_def)
  have "ReadFile ns \<in> set (trace (snd (finish env (fst (resume env ?t s)) (snd (resume env ?t s)))))"
    using coherent_resume [OF c] resume_reads [OF empty miss]
    by (rule finish_trace_mono)
  then show ?thesis
    by (simp only: finish_resume)
qed

lemma runSchedule_reads:
  assumes empty: "getTranslation tr ns = Inr None \<or> getTranslation tr ns = Inr (Some [])"
    and f: "fst (initFallback env ns s0) = Inl err"
  shows "\<forall>t\<in>set ts. coherent env s t \<Longrightarrow> fallbackCache s ns = None \<Longrightarrow>
     AwaitGetTranslation language ns tr \<in> set ts \<or> ReadFile ns \<in> set (trace s) \<Longrightarrow>
     AwaitGetTranslation language ns tr \<in> set (fst (runSchedule env sched ts s)) \<or>
     ReadFile ns \<in> set (trace (snd (runSchedule env sched ts s)))"
proof (induction sched arbitrary: ts s)
  case Nil
  then show ?case by simp
next
  case (Cons i sched)
  show ?case
  proof (cases "i < length ts")
    case False
    then show ?thesis
      using Cons.IH [OF Cons.prems] by simp
  next
    case True
    let ?t' = "fst (resume env (ts ! i) s)" and ?s' = "snd (resume env (ts ! i) s)"
    let ?a = "AwaitGetTranslation language ns tr"
    have ci: "coherent env s (ts ! i)"
      using Cons.prems(1) True by simp
    have miss': "fallbackCache ?s' ns = None"
      using ci f initFallback_fst [of env ns s s0] Cons.prems(2)
      by (intro resume_keeps_failed) simp_all
    have "?a \<in> set (ts[i := ?t']) \<or> ReadFile ns \<in> set (trace ?s')"
    proof (cases "ReadFile ns \<in> set (trace s)")
      case True
      then show ?thesis
        by (simp add: resume_trace_mono)
    next
      case False
      then have "?a \<in> set ts"
        using Cons.prems(3) by simp
      then obtain k where k: "k < length ts" "ts ! k = ?a"
        by (auto simp: in_set_conv_nth)
      show ?thesis
      proof (cases "k = i")
        case True
        then show ?thesis
          using resume_reads [OF empty Cons.prems(2), of env language] k by simp
      next
        case False
        then have "ts[i := ?t'] ! k = ?a" and "k < length (ts[i := ?t'])"
          using k by simp_all
        then have "?a \<in> set (ts[i := ?t'])"
          by (metis nth_mem)
        then show ?thesis
          by simp
      qed
    qed
    with Cons.IH [OF coherent_update [OF Cons.prems(1) True] miss'] True show ?thesis
      by (simp add: case_prod_beta)
  qed
qed

lemma drain_trace_mono:
  assumes "\<forall>t\<in>set ts. coherent env s t" and "x \<in> set (trace s)"
  shows "x \<in> set (trace (snd (runAll (map (finish env) ts) s)))"
  by (rule drain_preserves [where P = "\<lambda>\<sigma>. x \<in> set (trace \<sigma>)"])
     (use assms in \<open>simp_all add: resume_trace_mono\<close>)

lemma drain_reads:
  assumes empty: "getTranslation tr ns = Inr None \<or> getTranslation tr ns = Inr (Some [])"
    and f: "fst (initFallback env ns s0) = Inl err"
  shows "\<forall>t\<in>set ts. coherent env s t \<Longrightarrow> fallbackCache s ns = None \<Longrightarrow>
     AwaitGetTranslation language ns tr \<in> set ts \<or> ReadFile ns \<in> set (trace s) \<Longrightarrow>
     ReadFile ns \<in> set (trace (snd (runAll (map (finish env) ts) s)))"
proof (induction ts arbitrary: s)
  case Nil
  then show ?case by simp
next
  case (Cons t ts)
  let ?a = "AwaitGetTranslation language ns tr"
  let ?s' = "snd (finish env t s)"
  have ct: "coherent env s t"
    using Cons.prems(1) by simp
  have coh': "\<forall>u\<in>set ts. coherent env ?s' u"
    using Cons.prems(1) finish_others(1) [OF ct] by simp
  have miss': "fallbackCache ?s' ns = None"
    using ct f initFallback_fst [of env ns s s0] Cons.prems(2)
    by (intro finish_keeps_failed) simp_all
  have "?a \<in> set ts \<or> ReadFile ns \<in> set (trace ?s')"
  proof (cases "ReadFile ns \<in> set (trace s)")
    case True
    then show ?thesis
      using finish_trace_mono [OF ct] by simp
  next
    case False
    then have "t = ?a \<or> ?a \<in> set ts"
      using Cons.prems(3) by auto
    then show ?thesis
      using finish_reads [OF empty Cons.prems(2), of env language] by auto
  qed
  with Cons.IH [OF coh' miss'] show ?case
    by (simp add: case_prod_beta)
qed

lemma runBuilds_reads:
  assumes cr: "Translator_create env language = Inr tr"
    and empty: "getTranslation tr ns = Inr None \<or> getTranslation tr ns = Inr (Some [])"
    and f: "fst (initFallback env ns s) = Inl err"
    and miss: "fallbackCache s ns = None"
    and mem: "(language, ns) \<in> set calls"
  shows "ReadFile ns \<in> set (trace (snd (runBuilds env sched calls s)))"
proof -
  let ?start = "runAll (map (\<lambda>(language, ns). startBuild env language ns) calls) s"
  let ?ts = "fst ?start" and ?s1 = "snd ?start"
  let ?run = "runSchedule env sched ?ts ?s1"
  let ?a = "AwaitGetTranslation language ns tr"
  have coh: "\<forall>t\<in>set ?ts. coherent env ?s1 t"
    by (rule startAll_coherent)
  have miss1: "fallbackCache ?s1 ns = None"
    by (rule startAll_preserves [where P = "\<lambda>\<sigma>. fallbackCache \<sigma> ns = None"])
       (simp_all add: miss)
  have "?a = (\<lambda>(language, ns). fst (startBuild env language ns s)) (language, ns)"
    by (simp add: startBuild_fst cr)
  then have "?a \<in> set ?ts"
    unfolding startAll_fst [of env calls s s] using mem by (metis (no_types, lifting) image_eqI set_map)
  then have pend: "?a \<in> set (fst ?run) \<or> ReadFile ns \<in> set (trace (snd ?run))"
    using runSchedule_reads [OF empty f coh miss1] by simp
  have run: "(\<forall>t\<in>set (fst ?run). coherent env (snd ?run) t) \<and> fallbackCache (snd ?run) ns = None"
  proof (rule runSchedule_preserves [where P = "\<lambda>\<sigma>. fallbackCache \<sigma> ns = None"])
    fix t and \<sigma> :: state
    assume "coherent env \<sigma> t" and "fallbackCache \<sigma> ns = None"
    then show "fallbackCache (snd (resume env t \<sigma>)) ns = None"
      using f initFallback_fst [of env ns \<sigma> s] by (intro resume_keeps_failed) simp_all
  qed (use coh miss1 in simp_all)
  have "ReadFile ns \<in> set (trace (snd (runAll (map (finish env) (fst ?run)) (snd ?run))))"
    using drain_reads [OF empty f _ _ pend] run by simp
  then show ?thesis
    by (simp add: runBuilds_def case_prod_beta)
qed


subsection \<open>A namespace in the fallback cache\<close>



subsection \<open>How often a template is read\<close>








subsection \<open>The claims about the caches and the errors\<close>



text \<open>
  C5. Once a call of \<open>getDictionary\<close> for a language has resolved with a dictionary \<open>d\<close>,
  leaving the state \<open>s'\<close>, a second call for that language from \<open>s'\<close> resolves with the same
  \<open>d\<close> and leaves \<open>s'\<close> as it is, whatever the schedules of the two calls: the call log does
  not grow, so there is no directory walk, no call of the translator and no file read, and
  neither cache changes.
\<close>

theorem getDictionary_cached:
  "getDictionary env sched language s = (Inr d, s') \<Longrightarrow>
   getDictionary env sched' language s' = (Inr d, s')"
  by (auto simp: getDictionary_def split: option.splits prod.splits sum.splits)

text \<open>C5 (witness): the dictionary of the small installation, asked for twice.\<close>

theorem getDictionary_cached_witness:
  "fst (getDictionary demoEnv [0, 1, 2, 3] (js ''en-GB'') state0) =
     Inr [\<lparr>namespace = js ''admin/manage/users'',
           translations_str = js ''Users'' @ [0x0A] @ js ''Edit user'' @ [0x0A] @
              js ''[[admin/menu:section-manage]] > [[admin/menu:manage/users]]'',
           title = Some (js ''Manage > Users'')\<rparr>,
          \<lparr>namespace = js ''admin/settings/general'', translations_str = [], title = None\<rparr>,
          \<lparr>namespace = js ''admin/extend/plugins'',
           translations_str = js ''Plugins'' @ [0x0A] @ js ''Find'' @ [0x0A] @ js ''Extend > Plugins'',
           title = Some (js ''Extend > Plugins'')\<rparr>,
          \<lparr>namespace = js ''admin/extend/widgets'', translations_str = [], title = None\<rparr>] \<and>
   getDictionary demoEnv [3, 2, 1, 0] (js ''en-GB'')
       (snd (getDictionary demoEnv [0, 1, 2, 3] (js ''en-GB'') state0)) =
     getDictionary demoEnv [0, 1, 2, 3] (js ''en-GB'') state0"
proof -
  let ?d = "[\<lparr>namespace = js ''admin/manage/users'',
           translations_str = js ''Users'' @ [0x0A] @ js ''Edit user'' @ [0x0A] @
              js ''[[admin/menu:section-manage]] > [[admin/menu:manage/users]]'',
           title = Some (js ''Manage > Users'')\<rparr>,
          \<lparr>namespace = js ''admin/settings/general'', translations_str = [], title = None\<rparr>,
          \<lparr>namespace = js ''admin/extend/plugins'',
           translations_str = js ''Plugins'' @ [0x0A] @ js ''Find'' @ [0x0A] @ js ''Extend > Plugins'',
           title = Some (js ''Extend > Plugins'')\<rparr>,
          \<lparr>namespace = js ''admin/extend/widgets'', translations_str = [], title = None\<rparr>]"
  let ?g = "getDictionary demoEnv [0, 1, 2, 3] (js ''en-GB'') state0"
  have h: "?g = (Inr ?d, snd ?g)"
    using demo_dictionary by (simp add: prod_eq_iff)
  from getDictionary_cached [OF h, of "[3, 2, 1, 0]"] h demo_dictionary show ?thesis by simp
qed

lemma insert_entry:
  assumes "length r1 = length pre" and "r1 @ r2 = map Inr es"
  shows "Promise_all (r1 @ Inr d # r2) = Inr (take (length pre) es @ d # drop (length pre) es)"
proof -
  have "r1 = take (length pre) (map Inr es)" and "r2 = drop (length pre) (map Inr es)"
    using assms by (metis append_eq_conv_conj)+
  then have "r1 @ Inr d # r2 = map Inr (take (length pre) es @ d # drop (length pre) es)"
    by (simp add: take_map drop_map)
  then show ?thesis
    by (simp only: Promise_all_Inr)
qed

text \<open>
  C2. When \<^verbatim>\<open>getTranslation\<close> throws, or the table is not empty and \<^verbatim>\<open>translate\<close> throws,
  \<open>buildNamespace\<close> resolves (\<open>Inr\<close>) with the entry of empty translations and absent title.
  The state changes in its call log only, and no file read is logged: the fallback cache
  is as it was, the Fallback Builder has not run. In a build of several namespaces
  (\<open>pre\<close>, then \<open>ns\<close>, then \<open>post\<close>) the entries of the others are those of the build
  without \<open>ns\<close>, and the whole build resolves; this holds for builds run one after the
  other, and for the builds of \<^verbatim>\<open>Promise.all\<close> under every schedule.
\<close>

theorem buildNamespace_translator_error:
  assumes cr: "Translator_create env language = Inr tr"
  and thr: "getTranslation tr ns = Inl err \<or>
     (\<exists>tbl. getTranslation tr ns = Inr (Some tbl) \<and> tbl \<noteq> [] \<and> translate tr (titleKey ns) = Inl err)"
  shows "(\<exists>evs. buildNamespace env language ns s =
            (Inr \<lparr>namespace = ns, translations_str = [], title = None\<rparr>, s\<lparr>trace := trace s @ evs\<rparr>)
          \<and> (\<forall>x. ReadFile x \<notin> set evs))
       \<and> (\<exists>es. fst (runAll (map (buildNamespace env language) (pre @ post)) s) = map Inr es
            \<and> Promise_all (fst (runAll (map (buildNamespace env language) (pre @ ns # post)) s))
                = Inr (take (length pre) es @
                       \<lparr>namespace = ns, translations_str = [], title = None\<rparr> # drop (length pre) es)
            \<and> (\<forall>sched. fst (runBuilds env sched (map (Pair language) (pre @ post)) s) = map Inr es
                 \<and> Promise_all (fst (runBuilds env sched (map (Pair language) (pre @ ns # post)) s))
                    = Inr (take (length pre) es @
                       \<lparr>namespace = ns, translations_str = [], title = None\<rparr> # drop (length pre) es)))"
proof
  show "\<exists>evs. buildNamespace env language ns s =
            (Inr \<lparr>namespace = ns, translations_str = [], title = None\<rparr>, s\<lparr>trace := trace s @ evs\<rparr>)
          \<and> (\<forall>x. ReadFile x \<notin> set evs)"
    by (rule buildNamespace_throws [OF cr thr])
next
  let ?b = "buildNamespace env language"
  let ?deg = "\<lparr>namespace = ns, translations_str = [], title = None\<rparr>"
  let ?solo = "\<lambda>n. fst (?b n s)"
  obtain r1 s1 where p: "runAll (map ?b pre) s = (r1, s1)" by fastforce
  from buildNamespace_throws [OF cr thr, of s1] obtain evs where
    b: "?b ns s1 = (Inr ?deg, s1\<lparr>trace := trace s1 @ evs\<rparr>)" by blast
  let ?s2 = "s1\<lparr>trace := trace s1 @ evs\<rparr>"
  have same: "fst (runAll (map ?b post) ?s2) = fst (runAll (map ?b post) s1)"
    by (rule buildAll_same_caches) simp
  from buildAll_resolves [OF cr, of "pre @ post" s] obtain es where
    es: "fst (runAll (map ?b (pre @ post)) s) = map Inr es" by blast
  have without: "fst (runAll (map ?b (pre @ post)) s) = r1 @ fst (runAll (map ?b post) s1)"
    by (simp add: runAll_append p)
  have len: "length r1 = length pre"
    using runAll_length [of "map ?b pre" s] p by simp
  have "fst (runAll (map ?b (pre @ ns # post)) s) = r1 @ Inr ?deg # fst (runAll (map ?b post) ?s2)"
    by (simp add: runAll_append p b case_prod_beta)
  also have "\<dots> = r1 @ Inr ?deg # fst (runAll (map ?b post) s1)"
    by (simp only: same)
  finally have seq: "Promise_all (fst (runAll (map ?b (pre @ ns # post)) s))
      = Inr (take (length pre) es @ ?deg # drop (length pre) es)"
    using insert_entry [OF len] es without by simp
  have "\<forall>sched. fst (runBuilds env sched (map (Pair language) (pre @ post)) s) = map Inr es
                 \<and> Promise_all (fst (runBuilds env sched (map (Pair language) (pre @ ns # post)) s))
                    = Inr (take (length pre) es @ ?deg # drop (length pre) es)"
    using es seq by (simp only: runBuilds_sequential_language) simp
  with es seq show "\<exists>es. fst (runAll (map ?b (pre @ post)) s) = map Inr es
            \<and> Promise_all (fst (runAll (map ?b (pre @ ns # post)) s))
                = Inr (take (length pre) es @ ?deg # drop (length pre) es)
            \<and> (\<forall>sched. fst (runBuilds env sched (map (Pair language) (pre @ post)) s) = map Inr es
                 \<and> Promise_all (fst (runBuilds env sched (map (Pair language) (pre @ ns # post)) s))
                    = Inr (take (length pre) es @ ?deg # drop (length pre) es))"
    by blast
qed

text \<open>C2 (witness): \<^verbatim>\<open>admin/settings/general\<close>, whose table lookup throws, built between
  two other namespaces.\<close>

theorem buildNamespace_translator_error_witness:
  "Translator_create demoEnv (js ''en-GB'') = Inr demoTranslator \<and>
   getTranslation demoTranslator (js ''admin/settings/general'') = Inl (ErrorObj 1) \<and>
   (\<exists>evs. buildNamespace demoEnv (js ''en-GB'') (js ''admin/settings/general'') state0 =
            (Inr \<lparr>namespace = js ''admin/settings/general'', translations_str = [], title = None\<rparr>,
             state0\<lparr>trace := trace state0 @ evs\<rparr>)
          \<and> (\<forall>x. ReadFile x \<notin> set evs)) \<and>
   (\<exists>es. fst (runAll (map (buildNamespace demoEnv (js ''en-GB''))
                ([js ''admin/manage/users''] @ [js ''admin/extend/plugins''])) state0) = map Inr es
        \<and> Promise_all (fst (runAll (map (buildNamespace demoEnv (js ''en-GB''))
                ([js ''admin/manage/users''] @ js ''admin/settings/general'' #
                 [js ''admin/extend/plugins''])) state0))
            = Inr (take (length [js ''admin/manage/users'']) es @
                   \<lparr>namespace = js ''admin/settings/general'', translations_str = [], title = None\<rparr> #
                   drop (length [js ''admin/manage/users'']) es)
        \<and> (\<forall>sched. fst (runBuilds demoEnv sched (map (Pair (js ''en-GB''))
                ([js ''admin/manage/users''] @ [js ''admin/extend/plugins''])) state0) = map Inr es
             \<and> Promise_all (fst (runBuilds demoEnv sched (map (Pair (js ''en-GB''))
                ([js ''admin/manage/users''] @ js ''admin/settings/general'' #
                 [js ''admin/extend/plugins''])) state0))
                = Inr (take (length [js ''admin/manage/users'']) es @
                   \<lparr>namespace = js ''admin/settings/general'', translations_str = [], title = None\<rparr> #
                   drop (length [js ''admin/manage/users'']) es)))"
proof -
  have cr: "Translator_create demoEnv (js ''en-GB'') = Inr demoTranslator"
    by (simp add: demoEnv_def js_def)
  have g: "getTranslation demoTranslator (js ''admin/settings/general'') = Inl (ErrorObj 1)"
    by (simp add: demoTranslator_def js_def)
  have thr: "getTranslation demoTranslator (js ''admin/settings/general'') = Inl (ErrorObj 1) \<or>
     (\<exists>tbl. getTranslation demoTranslator (js ''admin/settings/general'') = Inr (Some tbl) \<and>
        tbl \<noteq> [] \<and>
        translate demoTranslator (titleKey (js ''admin/settings/general'')) = Inl (ErrorObj 1))"
    using g by blast
  from buildNamespace_translator_error [OF cr thr, of state0 "[js ''admin/manage/users'']"
      "[js ''admin/extend/plugins'']"] cr g
  show ?thesis by blast
qed

text \<open>
  C3 (amended). When a namespace of the build has an absent or empty translation table, no
  entry in the fallback cache, and a template file whose read fails, the failure is caught
  inside \<open>buildNamespace\<close>: under every schedule of the builds, the call of \<open>getDictionary\<close>
  resolves with one entry for each namespace, the entry of that namespace has empty
  translations and no title, and the dictionary is stored in the cache under the language.
  The read was attempted.
\<close>

theorem getDictionary_fallback_read_fails:
  assumes nocache: "cache s language = None"
    and wk: "walk env = Inr directories"
    and cr: "Translator_create env language = Inr tr"
    and empty: "getTranslation tr ns = Inr None \<or> getTranslation tr ns = Inr (Some [])"
    and miss: "fallbackCache s ns = None"
    and rf: "readFile env ns = Inl e"
    and mem: "ns \<in> set (filterDirectories (path_sep env) directories)"
  shows "\<exists>es s'. getDictionary env sched language s = (Inr es, s') \<and>
           cache s' language = Some es \<and>
           length es = length (filterDirectories (path_sep env) directories) \<and>
           (\<forall>i<length es. filterDirectories (path_sep env) directories ! i = ns \<longrightarrow>
               es ! i = \<lparr>namespace = ns, translations_str = [], title = None\<rparr>) \<and>
           ReadFile ns \<in> set (trace s')"
proof -
  let ?nss = "filterDirectories (path_sep env) directories"
  let ?deg = "\<lparr>namespace = ns, translations_str = [], title = None\<rparr>"
  let ?s1 = "emit Walk s"
  let ?r = "runBuilds env sched (map (Pair language) ?nss) ?s1"
  let ?s2 = "snd ?r"
  have miss1: "fallbackCache ?s1 ns = None"
    using miss by simp
  have f: "fst (initFallback env ns ?s1) = Inl e"
    by (simp add: initFallback_def rf)
  obtain es where es: "fst ?r = map Inr es"
    using runBuilds_resolves [OF cr] by blast
  have len: "length es = length ?nss"
    using runBuilds_length [of env sched "map (Pair language) ?nss" ?s1] es
    by (metis length_map)
  have deg: "\<forall>i<length es. ?nss ! i = ns \<longrightarrow> es ! i = ?deg"
  proof (intro allI impI)
    fix i
    assume i: "i < length es" and n: "?nss ! i = ns"
    have "fst ?r ! i = fst (buildNamespace env language ns ?s1)"
      using i len n by (simp add: runBuilds_values)
    also have "\<dots> = Inr ?deg"
      by (rule buildNamespace_failed_read(1) [OF cr empty miss1 rf])
    finally show "es ! i = ?deg"
      using es i by simp
  qed
  have rd: "ReadFile ns \<in> set (trace ?s2)"
    using mem by (intro runBuilds_reads [OF cr empty f miss1]) auto
  have init: "initDict env sched language s = (Inr es, ?s2)"
    using es by (simp add: initDict_def getAdminNamespaces_def wk case_prod_beta Promise_all_Inr)
  have "getDictionary env sched language s = (Inr es, ?s2\<lparr>cache := (cache ?s2)(language \<mapsto> es)\<rparr>)"
    by (simp add: getDictionary_def nocache init)
  moreover have "cache (?s2\<lparr>cache := (cache ?s2)(language \<mapsto> es)\<rparr>) language = Some es"
    by simp
  moreover have "ReadFile ns \<in> set (trace (?s2\<lparr>cache := (cache ?s2)(language \<mapsto> es)\<rparr>))"
    using rd by simp
  ultimately show ?thesis
    using len deg by (metis (no_types, lifting))
qed

text \<open>C3 (witness): \<^verbatim>\<open>admin/extend/widgets\<close> has no table and no readable template.\<close>

theorem getDictionary_fallback_read_fails_witness:
  "cache state0 (js ''en-GB'') = None \<and>
   walk demoEnv = Inr [js ''/v/admin/manage/users.tpl'', js ''/v/admin/settings/general.tpl'',
                       js ''/v/admin/extend/plugins.tpl'', js ''/v/admin/extend/widgets.tpl''] \<and>
   Translator_create demoEnv (js ''en-GB'') = Inr demoTranslator \<and>
   getTranslation demoTranslator (js ''admin/extend/widgets'') = Inr None \<and>
   fallbackCache state0 (js ''admin/extend/widgets'') = None \<and>
   readFile demoEnv (js ''admin/extend/widgets'') = Inl (ErrorObj 2) \<and>
   js ''admin/extend/widgets'' \<in> set (filterDirectories (path_sep demoEnv)
      [js ''/v/admin/manage/users.tpl'', js ''/v/admin/settings/general.tpl'',
       js ''/v/admin/extend/plugins.tpl'', js ''/v/admin/extend/widgets.tpl'']) \<and>
   (\<forall>sched. \<exists>es s'. getDictionary demoEnv sched (js ''en-GB'') state0 = (Inr es, s') \<and>
       cache s' (js ''en-GB'') = Some es \<and>
       length es = 4 \<and>
       es ! 3 = \<lparr>namespace = js ''admin/extend/widgets'', translations_str = [], title = None\<rparr> \<and>
       ReadFile (js ''admin/extend/widgets'') \<in> set (trace s'))"
proof -
  let ?dirs = "[js ''/v/admin/manage/users.tpl'', js ''/v/admin/settings/general.tpl'',
                js ''/v/admin/extend/plugins.tpl'', js ''/v/admin/extend/widgets.tpl'']"
  let ?w = "js ''admin/extend/widgets''"
  have 1: "cache state0 (js ''en-GB'') = None" by (simp add: state0_def)
  have 2: "walk demoEnv = Inr ?dirs" by (simp add: demoEnv_def)
  have 3: "Translator_create demoEnv (js ''en-GB'') = Inr demoTranslator"
    by (simp add: demoEnv_def js_def)
  have 4: "getTranslation demoTranslator ?w = Inr None"
    by (simp add: demoTranslator_def js_def)
  have 5: "fallbackCache state0 ?w = None" by (simp add: state0_def)
  have 6: "readFile demoEnv ?w = Inl (ErrorObj 2)" by (simp add: demoEnv_def js_def)
  have 7: "?w \<in> set (filterDirectories (path_sep demoEnv) ?dirs)"
    by (simp add: demo_namespaces)
  have 8: "filterDirectories (path_sep demoEnv) ?dirs ! 3 = ?w"
    by (simp add: demo_namespaces)
  have 9: "length (filterDirectories (path_sep demoEnv) ?dirs) = 4"
    by (simp add: demo_namespaces)
  have "\<exists>es s'. getDictionary demoEnv sched (js ''en-GB'') state0 = (Inr es, s') \<and>
       cache s' (js ''en-GB'') = Some es \<and> length es = 4 \<and>
       es ! 3 = \<lparr>namespace = ?w, translations_str = [], title = None\<rparr> \<and>
       ReadFile ?w \<in> set (trace s')" for sched
  proof -
    from getDictionary_fallback_read_fails [OF 1 2 3 disjI1 [OF 4] 5 6 7, of sched]
    obtain es s' where
      a: "getDictionary demoEnv sched (js ''en-GB'') state0 = (Inr es, s')"
      and b: "cache s' (js ''en-GB'') = Some es"
      and c: "length es = length (filterDirectories (path_sep demoEnv) ?dirs)"
      and d: "\<forall>i<length es. filterDirectories (path_sep demoEnv) ?dirs ! i = ?w \<longrightarrow>
                 es ! i = \<lparr>namespace = ?w, translations_str = [], title = None\<rparr>"
      and e: "ReadFile ?w \<in> set (trace s')" by blast
    from c 9 have l: "length es = 4" by simp
    with d 8 have "es ! 3 = \<lparr>namespace = ?w, translations_str = [], title = None\<rparr>" by simp
    with a b l e show ?thesis by blast
  qed
  with 1 2 3 4 5 6 7 show ?thesis by blast
qed

lemma getDictionary_stores:
  "cache s language = None \<Longrightarrow> fst (getDictionary env sched language s) = Inr d \<Longrightarrow>
   cache (snd (getDictionary env sched language s)) language = Some d"
  by (auto simp: getDictionary_def split: prod.splits sum.splits)

text \<open>
  C3 (counterexample). The specification has the whole call reject and nothing cached when
  a template read fails during the fallback. On the small installation the read for
  \<^verbatim>\<open>admin/extend/widgets\<close> fails, and yet the call resolves with all four entries and the
  cache holds a dictionary for the language.
\<close>

theorem getDictionary_read_failure_counterexample:
  "getTranslation demoTranslator (js ''admin/extend/widgets'') = Inr None \<and>
   readFile demoEnv (js ''admin/extend/widgets'') = Inl (ErrorObj 2) \<and>
   ReadFile (js ''admin/extend/widgets'')
     \<in> set (trace (snd (getDictionary demoEnv [0, 1, 2, 3] (js ''en-GB'') state0))) \<and>
   fst (getDictionary demoEnv [0, 1, 2, 3] (js ''en-GB'') state0) =
     Inr [\<lparr>namespace = js ''admin/manage/users'',
           translations_str = js ''Users'' @ [0x0A] @ js ''Edit user'' @ [0x0A] @
              js ''[[admin/menu:section-manage]] > [[admin/menu:manage/users]]'',
           title = Some (js ''Manage > Users'')\<rparr>,
          \<lparr>namespace = js ''admin/settings/general'', translations_str = [], title = None\<rparr>,
          \<lparr>namespace = js ''admin/extend/plugins'',
           translations_str = js ''Plugins'' @ [0x0A] @ js ''Find'' @ [0x0A] @ js ''Extend > Plugins'',
           title = Some (js ''Extend > Plugins'')\<rparr>,
          \<lparr>namespace = js ''admin/extend/widgets'', translations_str = [], title = None\<rparr>] \<and>
   cache (snd (getDictionary demoEnv [0, 1, 2, 3] (js ''en-GB'') state0)) (js ''en-GB'') \<noteq> None"
proof -
  have 1: "getTranslation demoTranslator (js ''admin/extend/widgets'') = Inr None"
    by (simp add: demoTranslator_def js_def)
  have 2: "readFile demoEnv (js ''admin/extend/widgets'') = Inl (ErrorObj 2)"
    by (simp add: demoEnv_def js_def)
  have 3: "ReadFile (js ''admin/extend/widgets'')
     \<in> set (trace (snd (getDictionary demoEnv [0, 1, 2, 3] (js ''en-GB'') state0)))"
    by (subst demo_trace) simp
  have "cache state0 (js ''en-GB'') = None" by (simp add: state0_def)
  from getDictionary_stores [OF this demo_dictionary]
  have 4: "cache (snd (getDictionary demoEnv [0, 1, 2, 3] (js ''en-GB'') state0)) (js ''en-GB'') \<noteq> None"
    by simp
  from 1 2 3 4 demo_dictionary show ?thesis by simp
qed




end
